theory Spec2Isabelle
  imports Complex_Main "HOL-Library.Multiset"
begin

section \<open>The outside world: exceptions, responses, effects\<close>

text \<open>
  The scraper talks to three outside parties: the scraped site (HTTP GET through
  \<^verbatim>\<open>aiohttp\<close> and \<^verbatim>\<open>requests\<close>), the asset store (\<^verbatim>\<open>cloudinary.api.resources\<close> and
  \<^verbatim>\<open>cloudinary.uploader.upload\<close>) and the event loop (\<^verbatim>\<open>asyncio.sleep\<close>).
  Every such call is an effect. A run carries a \<open>world\<close>: the number of outside calls
  made so far and the log of all effects in the order they happened. What the outside
  answers is fixed by an environment \<open>env\<close>: one oracle per party, asked with the number
  of outside calls made before this one. Exceptions are values; they are told apart only
  as far as the handlers of the source tell them apart.
\<close>

datatype exn =
    ClientError       \<comment> \<open>\<^verbatim>\<open>aiohttp.ClientError\<close> and its subclasses\<close>
  | RequestException  \<comment> \<open>what \<^verbatim>\<open>requests.get\<close> and its \<^verbatim>\<open>raise_for_status\<close> raise\<close>
  | ValueError
  | KeyError
  | OtherError        \<comment> \<open>any other \<^verbatim>\<open>Exception\<close>\<close>

text \<open>
  The \<^verbatim>\<open>Retry-After\<close> header as \<^verbatim>\<open>int(response.headers.get('Retry-After', 60))\<close>
  reads it: absent, a text that \<^verbatim>\<open>int\<close> reads as a number, or a text on which
  \<^verbatim>\<open>int\<close> raises \<^verbatim>\<open>ValueError\<close>.
\<close>

datatype retry_after_header = NoHeader | Seconds int | Malformed

record response =
  status_code :: nat
  retry_after :: retry_after_header
  content :: string

text \<open>
  What \<^verbatim>\<open>uploader.upload\<close> does: it raises \<^verbatim>\<open>cloudinary.exceptions.Error\<close>, it raises
  something else (the library works over urllib3, so never an aiohttp exception), or it
  returns the result dictionary.
\<close>

datatype upload_outcome =
    UploadError
  | UploadCrash
  | UploadResult "(string \<times> string) list"

datatype event =
    SessionGet string             \<comment> \<open>\<^verbatim>\<open>session.get(url)\<close> of aiohttp\<close>
  | RequestsGet string            \<comment> \<open>\<^verbatim>\<open>requests.get(url)\<close>\<close>
  | ApiResources string           \<comment> \<open>\<^verbatim>\<open>api.resources(type="upload", prefix=..., max_results=1)\<close>\<close>
  | UploaderUpload string string  \<comment> \<open>\<^verbatim>\<open>uploader.upload(data, folder=..., public_id=...)\<close>\<close>
  | Sleep int                     \<comment> \<open>\<^verbatim>\<open>asyncio.sleep(n)\<close>\<close>
  | SleepUniform int int          \<comment> \<open>\<^verbatim>\<open>asyncio.sleep(random.uniform(lo, hi))\<close>\<close>

record world =
  clock :: nat
  log :: "event list"

record env =
  http :: "nat \<Rightarrow> exn + response"
    \<comment> \<open>the outcome of a GET: an exception while the request is made or the body is
        read, or the response\<close>
  resources :: "nat \<Rightarrow> exn + string list option"
    \<comment> \<open>the outcome of \<^verbatim>\<open>api.resources\<close>: an exception, or the \<^verbatim>\<open>'resources'\<close>
        entry of the result (\<open>None\<close> when the key is missing)\<close>
  uploader :: "nat \<Rightarrow> upload_outcome"
  select_images :: "string \<Rightarrow> exn + string list"
    \<comment> \<open>\<^verbatim>\<open>[img['src'] for img in soup.select('#chapter_body > .main-reading-area img')]\<close>
        on the page text: the markup selection is BeautifulSoup's\<close>

definition call :: "event \<Rightarrow> world \<Rightarrow> world" where
  "call e w = \<lparr>clock = Suc (clock w), log = log w @ [e]\<rparr>"

definition sleep :: "int \<Rightarrow> world \<Rightarrow> world" where
  "sleep n w = w\<lparr>log := log w @ [Sleep n]\<rparr>"

definition sleep_uniform :: "int \<Rightarrow> int \<Rightarrow> world \<Rightarrow> world" where
  "sleep_uniform lo hi w = w\<lparr>log := log w @ [SleepUniform lo hi]\<rparr>"

definition session_get :: "env \<Rightarrow> string \<Rightarrow> world \<Rightarrow> (exn + response) \<times> world" where
  "session_get E url w = (http E (clock w), call (SessionGet url) w)"

definition requests_get :: "env \<Rightarrow> string \<Rightarrow> world \<Rightarrow> (exn + response) \<times> world" where
  "requests_get E url w = (http E (clock w), call (RequestsGet url) w)"

text \<open>The kinds of effects that the statements count.\<close>

fun is_session_get :: "event \<Rightarrow> bool" where
  "is_session_get (SessionGet _) = True"
| "is_session_get _ = False"

fun is_requests_get :: "event \<Rightarrow> bool" where
  "is_requests_get (RequestsGet _) = True"
| "is_requests_get _ = False"

fun is_upload :: "event \<Rightarrow> bool" where
  "is_upload (UploaderUpload _ _) = True"
| "is_upload _ = False"

section \<open>Constants\<close>

definition MAX_CONCURRENT_DOWNLOADS :: nat where
  "MAX_CONCURRENT_DOWNLOADS = 3"

definition MAX_RETRIES :: int where
  "MAX_RETRIES = 3"

definition RETRY_DELAY :: int where
  "RETRY_DELAY = 2"

section \<open>\<^verbatim>\<open>fetch_data_with_retry\<close>\<close>

text \<open>
  \<^verbatim>\<open>response.raise_for_status()\<close> of aiohttp raises \<^verbatim>\<open>ClientResponseError\<close>, a
  \<^verbatim>\<open>ClientError\<close>, when the status is 400 or more.
\<close>

definition raise_for_status :: "response \<Rightarrow> exn + response" where
  "raise_for_status r = (if 400 \<le> status_code r then Inl ClientError else Inr r)"

text \<open>
  One pass through the \<^verbatim>\<open>try\<close> block of \<^verbatim>\<open>fetch_data_with_retry\<close>: the GET, the status
  check, the text of the response.
\<close>

definition fetch_attempt :: "env \<Rightarrow> string \<Rightarrow> world \<Rightarrow> (exn + string) \<times> world" where
  "fetch_attempt E url w =
     (case session_get E url w of
        (Inl e, w1) \<Rightarrow> (Inl e, w1)
      | (Inr r, w1) \<Rightarrow>
          (case raise_for_status r of
             Inl e \<Rightarrow> (Inl e, w1)
           | Inr r' \<Rightarrow> (Inr (content r'), w1)))"

text \<open>
  The loop \<^verbatim>\<open>for attempt in range(max_retries)\<close>, over the attempts still to come.
  \<^verbatim>\<open>except Exception\<close> catches every exception; on the last attempt it is raised again,
  otherwise the loop sleeps \<^verbatim>\<open>RETRY_DELAY * (2 ** attempt)\<close> and goes on. A loop that
  runs out (only when \<^verbatim>\<open>max_retries\<close> is not positive) lets the function return
  \<^verbatim>\<open>None\<close>.
\<close>

fun fetch_loop ::
  "env \<Rightarrow> string \<Rightarrow> int \<Rightarrow> nat list \<Rightarrow> world \<Rightarrow> (exn + string option) \<times> world" where
  "fetch_loop E url max_retries [] w = (Inr None, w)"
| "fetch_loop E url max_retries (attempt # rest) w =
     (case fetch_attempt E url w of
        (Inr text, w1) \<Rightarrow> (Inr (Some text), w1)
      | (Inl e, w1) \<Rightarrow>
          if int attempt = max_retries - 1 then (Inl e, w1)
          else fetch_loop E url max_retries rest (sleep (RETRY_DELAY * 2 ^ attempt) w1))"

definition fetch_data_with_retry ::
  "env \<Rightarrow> string \<Rightarrow> int \<Rightarrow> world \<Rightarrow> (exn + string option) \<times> world" where
  "fetch_data_with_retry E url max_retries w =
     fetch_loop E url max_retries [0 ..< nat max_retries] w"

text \<open>An attempt fails when the GET raises or the status is an error status.\<close>

definition get_fails :: "exn + response \<Rightarrow> bool" where
  "get_fails x = (case x of Inl _ \<Rightarrow> True | Inr r \<Rightarrow> 400 \<le> status_code r)"

definition get_error :: "exn + response \<Rightarrow> exn" where
  "get_error x = (case x of Inl e \<Rightarrow> e | Inr _ \<Rightarrow> ClientError)"

section \<open>The asset store: \<^verbatim>\<open>services/cloudinary_service.py\<close>\<close>

text \<open>
  \<^verbatim>\<open>upload_image\<close> returns the result of the upload, or \<^verbatim>\<open>None\<close> after a
  \<^verbatim>\<open>cloudinary.exceptions.Error\<close>; any other exception leaves the function.
\<close>

definition upload_image ::
  "env \<Rightarrow> string \<Rightarrow> string \<Rightarrow> string \<Rightarrow> world
     \<Rightarrow> (exn + (string \<times> string) list option) \<times> world" where
  "upload_image E image_data folder filename w =
     (case uploader E (clock w) of
        UploadResult result \<Rightarrow> (Inr (Some result), call (UploaderUpload folder filename) w)
      | UploadError \<Rightarrow> (Inr None, call (UploaderUpload folder filename) w)
      | UploadCrash \<Rightarrow> (Inl OtherError, call (UploaderUpload folder filename) w))"

text \<open>
  \<^verbatim>\<open>folder_exists\<close> and \<^verbatim>\<open>file_exists\<close> are the same prefix query; the answer is
  \<^verbatim>\<open>'resources' in result and len(result['resources']) > 0\<close>, and \<^verbatim>\<open>False\<close> after any
  exception.
\<close>

definition folder_exists :: "env \<Rightarrow> string \<Rightarrow> world \<Rightarrow> bool \<times> world" where
  "folder_exists E folder_path w =
     (case resources E (clock w) of
        Inl e \<Rightarrow> (False, call (ApiResources folder_path) w)
      | Inr None \<Rightarrow> (False, call (ApiResources folder_path) w)
      | Inr (Some rs) \<Rightarrow> (0 < length rs, call (ApiResources folder_path) w))"

definition file_exists :: "env \<Rightarrow> string \<Rightarrow> string \<Rightarrow> world \<Rightarrow> bool \<times> world" where
  "file_exists E folder filename w =
     (case resources E (clock w) of
        Inl e \<Rightarrow> (False, call (ApiResources (folder @ ''/'' @ filename)) w)
      | Inr None \<Rightarrow> (False, call (ApiResources (folder @ ''/'' @ filename)) w)
      | Inr (Some rs) \<Rightarrow> (0 < length rs, call (ApiResources (folder @ ''/'' @ filename)) w))"

section \<open>\<^verbatim>\<open>download_image\<close>\<close>

text \<open>\<^verbatim>\<open>url.split('/')[-1].split('.')[0]\<close>: the last segment of the URL, up to its first dot.\<close>

definition last_segment :: "string \<Rightarrow> string" where
  "last_segment url = rev (takeWhile (\<lambda>c. c \<noteq> CHR ''/'') (rev url))"

definition image_filename :: "string \<Rightarrow> string" where
  "image_filename url = takeWhile (\<lambda>c. c \<noteq> CHR ''.'') (last_segment url)"

text \<open>The truth value Python gives to an optional string: \<^verbatim>\<open>None\<close> and \<^verbatim>\<open>""\<close> are false.\<close>

definition truthy :: "string option \<Rightarrow> bool" where
  "truthy x = (case x of None \<Rightarrow> False | Some s \<Rightarrow> s \<noteq> [])"

text \<open>
  Where the image goes: the cover under the comic's folder, a page under the chapter's
  folder, and \<^verbatim>\<open>ValueError\<close> when neither is asked for.
\<close>

definition upload_target ::
  "string \<Rightarrow> string \<Rightarrow> string option \<Rightarrow> bool \<Rightarrow> exn + string \<times> string" where
  "upload_target url comic_slug chapter is_cover =
     (if is_cover then Inr (comic_slug, ''cover'')
      else if truthy chapter then Inr (comic_slug @ ''/chapter-'' @ the chapter, image_filename url)
      else Inl ValueError)"

text \<open>
  How one pass through the body of the \<^verbatim>\<open>for\<close> loop ends: with \<^verbatim>\<open>return\<close>, with
  \<^verbatim>\<open>continue\<close>, or with an exception that reaches the \<^verbatim>\<open>except\<close> clause.
\<close>

datatype flow = Return string | Continue | Raise exn

definition wait_time :: "response \<Rightarrow> int" where
  "wait_time r = (case retry_after r of Seconds n \<Rightarrow> n | _ \<Rightarrow> 60)"

definition download_attempt ::
  "env \<Rightarrow> string \<Rightarrow> string \<Rightarrow> string option \<Rightarrow> bool \<Rightarrow> world \<Rightarrow> flow \<times> world" where
  "download_attempt E url comic_slug chapter is_cover w =
     (case session_get E url w of
        (Inl e, w1) \<Rightarrow> (Raise e, w1)
      | (Inr r, w1) \<Rightarrow>
          if status_code r = 429 then
            (if retry_after r = Malformed then (Raise ValueError, w1)
             else (Continue, sleep (wait_time r) w1))
          else
            (case raise_for_status r of
               Inl e \<Rightarrow> (Raise e, w1)
             | Inr r' \<Rightarrow>
                 (case upload_target url comic_slug chapter is_cover of
                    Inl e \<Rightarrow> (Raise e, w1)
                  | Inr (folder, filename) \<Rightarrow>
                      (case upload_image E (content r') folder filename w1 of
                         (Inl e, w2) \<Rightarrow> (Raise e, w2)
                       | (Inr None, w2) \<Rightarrow> (Return [], w2)
                       | (Inr (Some result), w2) \<Rightarrow>
                           if result = [] then (Return [], w2)
                           else (case map_of result ''secure_url'' of
                                   None \<Rightarrow> (Raise KeyError, w2)
                                 | Some u \<Rightarrow> (Return u, w2))))))"

text \<open>
  The loop \<^verbatim>\<open>for attempt in range(retries)\<close>. \<^verbatim>\<open>continue\<close> goes to the next attempt of
  the same loop. Only \<^verbatim>\<open>aiohttp.ClientError\<close> is caught: on the last attempt it is raised
  again, otherwise the loop sleeps \<^verbatim>\<open>2 ** attempt\<close>. When the loop runs out the
  function returns \<^verbatim>\<open>None\<close>.
\<close>

fun download_loop ::
  "env \<Rightarrow> string \<Rightarrow> string \<Rightarrow> string option \<Rightarrow> bool \<Rightarrow> int \<Rightarrow> nat list \<Rightarrow> world
     \<Rightarrow> (exn + string option) \<times> world" where
  "download_loop E url comic_slug chapter is_cover retries [] w = (Inr None, w)"
| "download_loop E url comic_slug chapter is_cover retries (attempt # rest) w =
     (case download_attempt E url comic_slug chapter is_cover w of
        (Return u, w1) \<Rightarrow> (Inr (Some u), w1)
      | (Continue, w1) \<Rightarrow> download_loop E url comic_slug chapter is_cover retries rest w1
      | (Raise e, w1) \<Rightarrow>
          if e = ClientError then
            (if int attempt = retries - 1 then (Inl e, w1)
             else download_loop E url comic_slug chapter is_cover retries rest
                    (sleep (2 ^ attempt) w1))
          else (Inl e, w1))"

text \<open>
  \<^verbatim>\<open>@rate_limited()\<close>: the name \<^verbatim>\<open>download_image\<close> is the wrapper, which sleeps a random
  time between 2 and 5 seconds and then runs the function.
\<close>

definition download_image ::
  "env \<Rightarrow> string \<Rightarrow> string \<Rightarrow> string option \<Rightarrow> bool \<Rightarrow> int \<Rightarrow> world
     \<Rightarrow> (exn + string option) \<times> world" where
  "download_image E url comic_slug chapter is_cover retries w =
     download_loop E url comic_slug chapter is_cover retries [0 ..< nat retries]
       (sleep_uniform 2 5 w)"

section \<open>\<^verbatim>\<open>fetch_data\<close>, \<^verbatim>\<open>handle_cover_image\<close>, \<^verbatim>\<open>scrape_chapter_images\<close>\<close>

text \<open>
  \<^verbatim>\<open>fetch_data\<close> is one \<^verbatim>\<open>requests.get\<close>; the \<^verbatim>\<open>raise_for_status\<close> of requests raises
  for a status from 400 to 599.
\<close>

definition fetch_data :: "env \<Rightarrow> string \<Rightarrow> world \<Rightarrow> (exn + string) \<times> world" where
  "fetch_data E url w =
     (case requests_get E url w of
        (Inl e, w1) \<Rightarrow> (Inl e, w1)
      | (Inr r, w1) \<Rightarrow>
          if 400 \<le> status_code r \<and> status_code r < 600 then (Inl RequestException, w1)
          else (Inr (content r), w1))"

definition handle_cover_image ::
  "env \<Rightarrow> string \<Rightarrow> string \<Rightarrow> world \<Rightarrow> (exn + string option) \<times> world" where
  "handle_cover_image E cover_image_url comic_slug w =
     (case file_exists E comic_slug ''cover'' w of
        (True, w1) \<Rightarrow> (Inr None, w1)
      | (False, w1) \<Rightarrow>
          (case download_image E cover_image_url comic_slug None True 3 w1 of
             (Inl e, w2) \<Rightarrow> (Inl e, w2)
           | (Inr cloudinary_url, w2) \<Rightarrow>
               if truthy cloudinary_url then (Inr cloudinary_url, w2) else (Inr None, w2)))"

text \<open>
  \<^verbatim>\<open>re.search(r'chapter-(\d+)', url)\<close>: the leftmost place where \<^verbatim>\<open>chapter-\<close> is followed
  by a digit, and there the longest run of digits. Characters are bytes here, and among
  them the decimal digits are \<^verbatim>\<open>0\<close> to \<^verbatim>\<open>9\<close>.
\<close>

definition is_digit :: "char \<Rightarrow> bool" where
  "is_digit c = (c \<in> set ''0123456789'')"

fun chapter_num_match :: "string \<Rightarrow> string option" where
  "chapter_num_match [] = None"
| "chapter_num_match (c # cs) =
     (if take 8 (c # cs) = ''chapter-'' \<and> takeWhile is_digit (drop 8 (c # cs)) \<noteq> []
      then Some (takeWhile is_digit (drop 8 (c # cs)))
      else chapter_num_match cs)"

definition chapter_folder :: "string \<Rightarrow> string \<Rightarrow> string" where
  "chapter_folder comic_slug chapter_num = comic_slug @ ''/chapter-'' @ chapter_num"

text \<open>
  The loop over the images of a chapter. An exception of \<^verbatim>\<open>download_image\<close> reaches the
  \<^verbatim>\<open>except\<close> clause of \<^verbatim>\<open>scrape_chapter_images\<close>, which returns the empty list.
\<close>

fun download_all ::
  "env \<Rightarrow> string list \<Rightarrow> string \<Rightarrow> string \<Rightarrow> string list \<Rightarrow> world \<Rightarrow> string list \<times> world" where
  "download_all E [] comic_slug chapter_num cloudinary_urls w = (cloudinary_urls, w)"
| "download_all E (img_url # images) comic_slug chapter_num cloudinary_urls w =
     (case download_image E img_url comic_slug (Some chapter_num) False 3 w of
        (Inl e, w1) \<Rightarrow> ([], w1)
      | (Inr cloudinary_url, w1) \<Rightarrow>
          download_all E images comic_slug chapter_num
            (if truthy cloudinary_url then cloudinary_urls @ [the cloudinary_url]
             else cloudinary_urls) w1)"

definition scrape_chapter_images :: "env \<Rightarrow> string \<Rightarrow> string \<Rightarrow> world \<Rightarrow> string list \<times> world" where
  "scrape_chapter_images E url comic_slug w =
     (case chapter_num_match url of
        None \<Rightarrow> ([], w)
      | Some chapter_num \<Rightarrow>
          (case folder_exists E (chapter_folder comic_slug chapter_num) w of
             (True, w1) \<Rightarrow> ([], w1)
           | (False, w1) \<Rightarrow>
               (case fetch_data E url w1 of
                  (Inl e, w2) \<Rightarrow> ([], w2)
                | (Inr data, w2) \<Rightarrow>
                    (case select_images E data of
                       Inl e \<Rightarrow> ([], w2)
                     | Inr images \<Rightarrow> download_all E images comic_slug chapter_num [] w2))))"

section \<open>Python floats\<close>

text \<open>
  A chapter number is a Python \<^verbatim>\<open>float\<close>, an IEEE binary64 value: a finite number (given
  here by its exact rational value; the two zeros are not told apart), an infinity, or
  not-a-number. The comparisons are Python's: every comparison with not-a-number is false.
\<close>

datatype pyfloat = Fin rat | PInf | NInf | NaN

fun py_lt :: "pyfloat \<Rightarrow> pyfloat \<Rightarrow> bool" where
  "py_lt (Fin a) y = (case y of Fin b \<Rightarrow> a < b | PInf \<Rightarrow> True | _ \<Rightarrow> False)"
| "py_lt PInf y = False"
| "py_lt NInf y = (case y of Fin b \<Rightarrow> True | PInf \<Rightarrow> True | _ \<Rightarrow> False)"
| "py_lt NaN y = False"

fun py_ge :: "pyfloat \<Rightarrow> pyfloat \<Rightarrow> bool" where
  "py_ge (Fin a) y = (case y of Fin b \<Rightarrow> b \<le> a | NInf \<Rightarrow> True | _ \<Rightarrow> False)"
| "py_ge PInf y = (y \<noteq> NaN)"
| "py_ge NInf y = (y = NInf)"
| "py_ge NaN y = False"

definition py_le :: "pyfloat \<Rightarrow> pyfloat \<Rightarrow> bool" where
  "py_le x y = py_ge y x"

text \<open>The truth value of a float: false for zero only.\<close>

definition py_bool :: "pyfloat \<Rightarrow> bool" where
  "py_bool x = (x \<noteq> Fin 0)"

subsection \<open>\<^verbatim>\<open>float(text)\<close> on decimal text\<close>

text \<open>
  \<^verbatim>\<open>float\<close> reads a decimal text and rounds its value to the nearest binary64 number,
  ties to the even mantissa; a value too large becomes \<^verbatim>\<open>inf\<close>. \<open>b64_round n d\<close> is that
  rounding of the fraction \<open>n / d\<close>: with \<open>e\<close> the binary exponent of the fraction, the
  mantissa is the fraction in units of \<open>2 ^ s\<close>, \<open>s = max (e - 52) (- 1074)\<close>, rounded to a
  whole number of at most 53 bits.
\<close>

fun bit_length :: "nat \<Rightarrow> nat" where
  "bit_length n = (if n = 0 then 0 else Suc (bit_length (n div 2)))"

declare bit_length.simps [simp del]

definition floor_log2 :: "nat \<Rightarrow> nat \<Rightarrow> int" where
  "floor_log2 n d =
     (let e0 = int (bit_length n) - int (bit_length d)
      in if (if 0 \<le> e0 then d * 2 ^ nat e0 \<le> n else d \<le> n * 2 ^ nat (- e0))
         then e0 else e0 - 1)"

definition round_half_even :: "nat \<Rightarrow> nat \<Rightarrow> nat" where
  "round_half_even a b =
     (let q = a div b; r = a mod b
      in if 2 * r < b then q else if b < 2 * r then q + 1 else if even q then q else q + 1)"

definition b64_round :: "nat \<Rightarrow> nat \<Rightarrow> pyfloat" where
  "b64_round n d =
     (if n = 0 then Fin 0
      else
        let s = max (floor_log2 n d - 52) (- 1074);
            m = (if 0 \<le> s then round_half_even n (d * 2 ^ nat s)
                 else round_half_even (n * 2 ^ nat (- s)) d)
        in if 1024 < s + int (bit_length m) then PInf
           else if 0 \<le> s then Fin (of_nat (m * 2 ^ nat s))
           else Fin (of_nat m / of_nat (2 ^ nat (- s))))"

definition digit_value :: "char \<Rightarrow> nat" where
  "digit_value c = of_char c - 48"

definition digits_value :: "string \<Rightarrow> nat" where
  "digits_value ds = foldl (\<lambda>a c. 10 * a + digit_value c) 0 ds"

text \<open>
  \<^verbatim>\<open>float\<close> on a text of digits, or of digits, a dot and digits: the only texts that the
  pattern of \<^verbatim>\<open>get_chapter_list\<close> lets through.
\<close>

definition py_float :: "string \<Rightarrow> pyfloat" where
  "py_float t =
     (let n = takeWhile is_digit t; m = drop (Suc (length n)) t
      in b64_round (digits_value (n @ m)) (10 ^ length m))"

subsection \<open>\<^verbatim>\<open>str(x)\<close> of a float\<close>

text \<open>
  \<^verbatim>\<open>str\<close> of a float writes the shortest digits that read back as the same float, in
  fixed notation when the decimal point lies within 16 places and in exponent notation
  otherwise; in fixed notation a whole number gets \<^verbatim>\<open>.0\<close>. The shortest digits of a whole
  number below \<open>10 ^ 16\<close> are the digits of that number (up to zeros at the end, which
  the layout puts back). For every other value they come from the parameter \<open>dtoa\<close>: the
  digit text and the position of the decimal point, as the interpreter's digit generator
  gives them.
\<close>

fun digits_of_nat :: "nat \<Rightarrow> string" where
  "digits_of_nat n =
     (if n < 10 then [''0123456789'' ! n]
      else digits_of_nat (n div 10) @ [''0123456789'' ! (n mod 10)])"

declare digits_of_nat.simps [simp del]

definition shortest_digits :: "(rat \<Rightarrow> string \<times> int) \<Rightarrow> rat \<Rightarrow> string \<times> int" where
  "shortest_digits dtoa q =
     (if q = of_int \<lfloor>q\<rfloor> \<and> q < 10 ^ 16
      then (digits_of_nat (nat \<lfloor>q\<rfloor>), int (length (digits_of_nat (nat \<lfloor>q\<rfloor>))))
      else dtoa q)"

definition exponent_text :: "int \<Rightarrow> string" where
  "exponent_text e =
     (if e < 0 then ''-'' else ''+'')
     @ (if \<bar>e\<bar> < 10 then ''0'' else []) @ digits_of_nat (nat \<bar>e\<bar>)"

definition format_float_short :: "string \<times> int \<Rightarrow> string" where
  "format_float_short dd =
     (case dd of (digits, decpt) \<Rightarrow>
        if decpt \<le> - 4 \<or> 16 < decpt then
          take 1 digits @ (if 1 < length digits then ''.'' @ drop 1 digits else [])
          @ ''e'' @ exponent_text (decpt - 1)
        else if decpt \<le> 0 then ''0.'' @ replicate (nat (- decpt)) (CHR ''0'') @ digits
        else if int (length digits) \<le> decpt then
          digits @ replicate (nat decpt - length digits) (CHR ''0'') @ ''.0''
        else take (nat decpt) digits @ ''.'' @ drop (nat decpt) digits)"

definition float_str :: "(rat \<Rightarrow> string \<times> int) \<Rightarrow> pyfloat \<Rightarrow> string" where
  "float_str dtoa x =
     (case x of
        NaN \<Rightarrow> ''nan''
      | PInf \<Rightarrow> ''inf''
      | NInf \<Rightarrow> ''-inf''
      | Fin q \<Rightarrow> (if q < 0 then ''-'' else []) @ format_float_short (shortest_digits dtoa \<bar>q\<bar>))"

section \<open>\<^verbatim>\<open>get_chapter_list\<close>\<close>

text \<open>
  Texts are lists of characters with codes below 256; among these, \<^verbatim>\<open>str.strip\<close> removes
  the characters below from both ends.
\<close>

definition is_space :: "char \<Rightarrow> bool" where
  "is_space c = ((of_char c :: nat) \<in> set [9, 10, 11, 12, 13, 28, 29, 30, 31, 32, 133, 160])"

definition strip :: "string \<Rightarrow> string" where
  "strip t = rev (dropWhile is_space (rev (dropWhile is_space t)))"

definition chapter_text :: "string \<Rightarrow> string" where
  "chapter_text t = map (\<lambda>c. if c = CHR 0x0A then CHR '' '' else c) (strip t)"

text \<open>
  \<^verbatim>\<open>re.search(r'Chapter (\d+(\.\d+)?)', chapter_text)\<close>. \<open>chapter_group\<close> is a match of
  the pattern at the start of the text, giving group 1: after \<^verbatim>\<open>Chapter\<close> and a space the
  longest run of digits, which must not be empty, and then, if a dot and at least one digit
  follow, the dot and the longest run of digits. \<open>chapter_search\<close> takes the leftmost
  place with a match.
\<close>

definition chapter_group :: "string \<Rightarrow> string option" where
  "chapter_group t =
     (if take 8 t = ''Chapter '' then
        (let n = takeWhile is_digit (drop 8 t);
             after = dropWhile is_digit (drop 8 t)
         in if n = [] then None
            else if after \<noteq> [] \<and> hd after = CHR ''.'' \<and> takeWhile is_digit (tl after) \<noteq> []
              then Some (n @ ''.'' @ takeWhile is_digit (tl after))
            else Some n)
      else None)"

fun chapter_search :: "string \<Rightarrow> string option" where
  "chapter_search [] = None"
| "chapter_search (c # cs) =
     (case chapter_group (c # cs) of
        Some g \<Rightarrow> Some g
      | None \<Rightarrow> chapter_search cs)"

text \<open>
  A link is an element that the selector
  \<^verbatim>\<open>#chapter-wrapper > li.komik_info-chapters-item > a.chapter-link-item\<close> found: its text and
  its \<^verbatim>\<open>href\<close> attribute, if it has one. A chapter is the dictionary with the keys
  \<^verbatim>\<open>'number'\<close> and \<^verbatim>\<open>'url'\<close>.
\<close>

record link =
  link_text :: string
  href :: "string option"

record chapter_entry =
  number :: pyfloat
  url :: string

text \<open>
  The loop over the links: a link whose text has no match is passed over; for a match,
  \<^verbatim>\<open>item['href']\<close> raises \<^verbatim>\<open>KeyError\<close> when the attribute is missing.
\<close>

fun collect_chapters :: "link list \<Rightarrow> chapter_entry list \<Rightarrow> exn + chapter_entry list" where
  "collect_chapters [] chapters = Inr chapters"
| "collect_chapters (item # items) chapters =
     (case chapter_search (chapter_text (link_text item)) of
        None \<Rightarrow> collect_chapters items chapters
      | Some g \<Rightarrow>
          (case href item of
             None \<Rightarrow> Inl KeyError
           | Some h \<Rightarrow> collect_chapters items (chapters @ [\<lparr>number = py_float g, url = h\<rparr>])))"

text \<open>
  \<^verbatim>\<open>sorted(chapters, key=lambda x: x['number'])\<close> is a stable sort that compares keys with
  \<^verbatim>\<open><\<close>. The keys here are never not-a-number, so they are totally ordered and the result
  is the one stable ordering, built here by insertion from the right.
\<close>

fun insort_number :: "chapter_entry \<Rightarrow> chapter_entry list \<Rightarrow> chapter_entry list" where
  "insort_number x [] = [x]"
| "insort_number x (y # ys) =
     (if py_lt (number y) (number x) then y # insort_number x ys else x # y # ys)"

definition sorted_by_number :: "chapter_entry list \<Rightarrow> chapter_entry list" where
  "sorted_by_number chapters = foldr insort_number chapters []"

definition get_chapter_list :: "link list \<Rightarrow> chapter_entry list" where
  "get_chapter_list chapter_links =
     (case collect_chapters chapter_links [] of
        Inl e \<Rightarrow> []
      | Inr chapters \<Rightarrow> sorted_by_number chapters)"

section \<open>The filters of \<^verbatim>\<open>main\<close>\<close>

text \<open>
  \<^verbatim>\<open>[ch for ch in chapters if not start_chapter or ch['number'] >= start_chapter]\<close>, where
  \<^verbatim>\<open>start_chapter\<close> is \<^verbatim>\<open>None\<close> for an empty input and a float otherwise.
\<close>

definition chapters_from_start :: "chapter_entry list \<Rightarrow> pyfloat option \<Rightarrow> chapter_entry list" where
  "chapters_from_start chapters start_chapter =
     filter (\<lambda>ch. case start_chapter of
                    None \<Rightarrow> True
                  | Some s \<Rightarrow> \<not> py_bool s \<or> py_ge (number ch) s) chapters"

text \<open>The folder that \<^verbatim>\<open>main\<close> asks for: \<^verbatim>\<open>f"{title}/chapter-{chapter['number']}"\<close>.\<close>

definition main_chapter_folder :: "(rat \<Rightarrow> string \<times> int) \<Rightarrow> string \<Rightarrow> chapter_entry \<Rightarrow> string" where
  "main_chapter_folder dtoa title ch = title @ ''/chapter-'' @ float_str dtoa (number ch)"

text \<open>
  \<^verbatim>\<open>[chapter for chapter in chapters_to_scrape if not folder_exists(...)]\<close>: one query for
  each chapter, in order.
\<close>

fun not_yet_stored ::
  "(rat \<Rightarrow> string \<times> int) \<Rightarrow> env \<Rightarrow> string \<Rightarrow> chapter_entry list \<Rightarrow> world \<Rightarrow> chapter_entry list \<times> world" where
  "not_yet_stored dtoa E title [] w = ([], w)"
| "not_yet_stored dtoa E title (ch # chs) w =
     (case folder_exists E (main_chapter_folder dtoa title ch) w of
        (found, w1) \<Rightarrow>
          (case not_yet_stored dtoa E title chs w1 of
             (kept, w2) \<Rightarrow> (if found then kept else ch # kept, w2)))"

section \<open>The admission gate: \<^verbatim>\<open>download_with_progress\<close> under \<^verbatim>\<open>asyncio.gather\<close>\<close>

text \<open>
  \<^verbatim>\<open>main\<close> creates one \<^verbatim>\<open>asyncio.Semaphore(MAX_CONCURRENT_DOWNLOADS)\<close> and hands all
  chapters to \<^verbatim>\<open>asyncio.gather\<close>. Each pipeline is \<^verbatim>\<open>download_with_progress\<close>: it enters
  \<^verbatim>\<open>async with semaphore\<close> (waiting while the counter is 0, then taking 1 from it), runs
  \<^verbatim>\<open>scrape_chapter_images\<close> inside, where all its requests are made, and leaves the block,
  by its end or by an exception, which gives 1 back. The event loop runs the pipelines
  interleaved: a schedule is the list of the actions in the order it chose them. (The
  semaphore of asyncio also serves the waiting pipelines in order; that allows fewer
  schedules, not more.)
\<close>

datatype pipeline_state = Waiting | Holding | Finished

datatype action = Acquire nat | Request nat | Release nat

record scheduler =
  semaphore :: nat
  pipelines :: "pipeline_state list"
  requests :: "(nat \<times> nat) list"
    \<comment> \<open>every request made: the pipeline, and how many pipelines were inside the gate then\<close>

definition in_flight :: "scheduler \<Rightarrow> nat" where
  "in_flight s = length (filter (\<lambda>p. p = Holding) (pipelines s))"

fun step :: "action \<Rightarrow> scheduler \<Rightarrow> scheduler option" where
  "step (Acquire i) s =
     (if i < length (pipelines s) \<and> pipelines s ! i = Waiting \<and> 0 < semaphore s
      then Some (s\<lparr>semaphore := semaphore s - 1, pipelines := (pipelines s)[i := Holding]\<rparr>)
      else None)"
| "step (Request i) s =
     (if i < length (pipelines s) \<and> pipelines s ! i = Holding
      then Some (s\<lparr>requests := requests s @ [(i, in_flight s)]\<rparr>)
      else None)"
| "step (Release i) s =
     (if i < length (pipelines s) \<and> pipelines s ! i = Holding
      then Some (s\<lparr>semaphore := semaphore s + 1, pipelines := (pipelines s)[i := Finished]\<rparr>)
      else None)"

fun run :: "action list \<Rightarrow> scheduler \<Rightarrow> scheduler option" where
  "run [] s = Some s"
| "run (a # as) s = (case step a s of None \<Rightarrow> None | Some s' \<Rightarrow> run as s')"

definition dispatch :: "nat \<Rightarrow> scheduler" where
  "dispatch n = \<lparr>semaphore = MAX_CONCURRENT_DOWNLOADS, pipelines = replicate n Waiting, requests = []\<rparr>"

text \<open>
  What holds of the gate at all times: the pipelines inside it and the free slots add up to
  the limit, and every request was made with at least one and at most that many pipelines
  inside.
\<close>

definition gate_ok :: "scheduler \<Rightarrow> bool" where
  "gate_ok s = (in_flight s + semaphore s = MAX_CONCURRENT_DOWNLOADS
                \<and> list_all (\<lambda>(i, k). 1 \<le> k \<and> k \<le> MAX_CONCURRENT_DOWNLOADS) (requests s))"

section \<open>Counting effects\<close>

definition session_gets :: "world \<Rightarrow> nat" where
  "session_gets w = length (filter is_session_get (log w))"

definition page_gets :: "world \<Rightarrow> nat" where
  "page_gets w = length (filter is_requests_get (log w))"

definition uploads :: "world \<Rightarrow> nat" where
  "uploads w = length (filter is_upload (log w))"

section \<open>\<^verbatim>\<open>models/comic.py\<close> and \<^verbatim>\<open>save_comic_metadata\<close>\<close>

text \<open>
  The values of the metadata dictionary are texts, and a list of texts for the genres. A
  row of the table \<^verbatim>\<open>comics\<close> holds what the constructor \<^verbatim>\<open>Comic(...)\<close> was given; the
  primary key is given by the database when the row is added.
\<close>

datatype meta_value = Str string | StrList "string list"

type_synonym datetime = int

record comic =
  comic_id :: nat
  title :: meta_value
  author :: meta_value
  type :: meta_value
  status :: meta_value
  release :: meta_value
  updated_on :: datetime
  genres :: meta_value
  synopsis :: meta_value
  rating :: meta_value
  cover_image_url :: meta_value
  slug :: string

record database =
  rows :: "comic list"
  next_id :: nat

definition meta_keys :: "string list" where
  "meta_keys = [''title'', ''author'', ''type'', ''status'', ''release'', ''genres'',
                ''synopsis'', ''rating'', ''cover_image_url'']"

text \<open>
  The constructor call: each \<^verbatim>\<open>comic_meta[key]\<close> raises \<^verbatim>\<open>KeyError\<close> when the key is
  missing.
\<close>

definition new_comic ::
  "(string \<rightharpoonup> meta_value) \<Rightarrow> string \<Rightarrow> datetime \<Rightarrow> nat \<Rightarrow> exn + comic" where
  "new_comic comic_meta comic_slug now i =
     (if list_all (\<lambda>k. comic_meta k \<noteq> None) meta_keys then
        Inr \<lparr>comic_id = i,
             title = the (comic_meta ''title''),
             author = the (comic_meta ''author''),
             type = the (comic_meta ''type''),
             status = the (comic_meta ''status''),
             release = the (comic_meta ''release''),
             updated_on = now,
             genres = the (comic_meta ''genres''),
             synopsis = the (comic_meta ''synopsis''),
             rating = the (comic_meta ''rating''),
             cover_image_url = the (comic_meta ''cover_image_url''),
             slug = comic_slug\<rparr>
      else Inl KeyError)"

text \<open>\<^verbatim>\<open>existing_comic.updated_on = datetime.now()\<close> on the row that \<^verbatim>\<open>.first()\<close> gave.\<close>

fun touch_first :: "string \<Rightarrow> datetime \<Rightarrow> comic list \<Rightarrow> comic list" where
  "touch_first comic_slug now [] = []"
| "touch_first comic_slug now (c # cs) =
     (if slug c = comic_slug then c\<lparr>updated_on := now\<rparr> # cs
      else c # touch_first comic_slug now cs)"

text \<open>
  \<open>db_ok\<close> says whether the database carries out the statements of the session (the
  query, the insert or update, the commit). When it raises at any of them, or the
  constructor call raises, the \<^verbatim>\<open>except\<close> clause rolls back and the table is as before.
  \<open>now\<close> is \<^verbatim>\<open>datetime.now()\<close>.
\<close>

definition save_comic_metadata ::
  "bool \<Rightarrow> datetime \<Rightarrow> (string \<rightharpoonup> meta_value) \<Rightarrow> string \<Rightarrow> database \<Rightarrow> database" where
  "save_comic_metadata db_ok now comic_meta comic_slug db =
     (if \<not> db_ok then db
      else
        (case find (\<lambda>c. slug c = comic_slug) (rows db) of
           None \<Rightarrow>
             (case new_comic comic_meta comic_slug now (next_id db) of
                Inl e \<Rightarrow> db
              | Inr c \<Rightarrow> \<lparr>rows = rows db @ [c], next_id = Suc (next_id db)\<rparr>)
         | Some existing_comic \<Rightarrow> db\<lparr>rows := touch_first comic_slug now (rows db)\<rparr>))"

text \<open>
  A page fetch of \<^verbatim>\<open>fetch_data\<close> fails when the GET raises or the status is from 400 to 599.
\<close>

definition page_fails :: "exn + response \<Rightarrow> bool" where
  "page_fails x = (case x of Inl e \<Rightarrow> True | Inr r \<Rightarrow> 400 \<le> status_code r \<and> status_code r < 600)"

text \<open>
  The effects of \<open>j\<close> passes that each end in \<^verbatim>\<open>continue\<close>: a GET and the sleep that the
  response asks for, \<open>j\<close> times, the first response being the one with number \<open>t\<close>.
\<close>

definition waits :: "env \<Rightarrow> string \<Rightarrow> nat \<Rightarrow> nat \<Rightarrow> event list" where
  "waits E u t j =
     concat (map (\<lambda>i. [SessionGet u, Sleep (wait_time (projr (http E (t + i))))]) [0 ..< j])"

section \<open>Notions for the statements\<close>

text \<open>
  What \<^verbatim>\<open>float\<close> gives for a decimal text: a finite number that is not negative, or
  \<^verbatim>\<open>inf\<close>.
\<close>

definition ordinary :: "pyfloat \<Rightarrow> bool" where
  "ordinary x = (case x of Fin q \<Rightarrow> 0 \<le> q | PInf \<Rightarrow> True | _ \<Rightarrow> False)"

text \<open>
  The finite binary64 numbers that are not negative: a mantissa below \<open>2 ^ 53\<close> times a
  power of two with an exponent from \<open>- 1074\<close> to \<open>971\<close>.
\<close>

definition binary64 :: "rat \<Rightarrow> bool" where
  "binary64 q = (\<exists>(m::nat) (e::int). m < 2 ^ 53 \<and> - 1074 \<le> e \<and> e \<le> 971 \<and> q = of_nat m * 2 powi e)"

text \<open>
  Rounding to nearest, ties to even, as IEEE 754 has it for binary64: the float that stands
  for a rational \<open>q\<close> that is not negative. Below \<open>2 ^ 1024 - 2 ^ 970\<close> it is a binary64 number
  \<open>v\<close> such that no binary64 number is nearer to \<open>q\<close>, and, when another binary64 number
  \<open>y\<close> is as near, \<open>v\<close> is the one of the two that is an even multiple of their distance.
  From \<open>2 ^ 1024 - 2 ^ 970\<close> on it is \<^verbatim>\<open>inf\<close>.
\<close>

definition nearest_binary64 :: "rat \<Rightarrow> pyfloat \<Rightarrow> bool" where
  "nearest_binary64 q x =
     (case x of
        Fin v \<Rightarrow>
          binary64 v \<and> q < (2 ^ 54 - 1) * 2 powi 970
          \<and> (\<forall>y. binary64 y \<longrightarrow>
                 \<bar>v - q\<bar> \<le> \<bar>y - q\<bar>
                 \<and> (y \<noteq> v \<and> \<bar>y - q\<bar> = \<bar>v - q\<bar> \<longrightarrow> (\<exists>k::nat. v = of_nat (2 * k) * \<bar>v - y\<bar>)))
      | PInf \<Rightarrow> (2 ^ 54 - 1) * 2 powi 970 \<le> q
      | _ \<Rightarrow> False)"

text \<open>The number that the decimal text \<open>N.M\<close> denotes: \<open>N + M / 10 ^ length M\<close>.\<close>

definition decimal_value :: "string \<Rightarrow> string \<Rightarrow> rat" where
  "decimal_value n m = of_nat (digits_value n) + of_nat (digits_value m) / 10 ^ length m"

text \<open>
  A text of digits; a rest of the text at which a run of digits ends; a rest that begins
  with a dot and a digit.
\<close>

definition digits :: "string \<Rightarrow> bool" where
  "digits ds = (ds \<noteq> [] \<and> list_all is_digit ds)"

definition number_ends :: "string \<Rightarrow> bool" where
  "number_ends rest = (rest = [] \<or> \<not> is_digit (hd rest))"

definition fraction_follows :: "string \<Rightarrow> bool" where
  "fraction_follows rest = (case rest of c # d # _ \<Rightarrow> c = CHR ''.'' \<and> is_digit d | _ \<Rightarrow> False)"

text \<open>
  A link whose text has a match of the pattern, and the chapter that the loop of
  \<^verbatim>\<open>get_chapter_list\<close> appends for it.
\<close>

definition matches :: "link \<Rightarrow> bool" where
  "matches l = (chapter_search (chapter_text (link_text l)) \<noteq> None)"

definition entry_of :: "link \<Rightarrow> chapter_entry" where
  "entry_of l = \<lparr>number = py_float (the (chapter_search (chapter_text (link_text l)))),
                url = the (href l)\<rparr>"

text \<open>An asset store in which every existence query finds nothing.\<close>

definition store_empty :: "env \<Rightarrow> bool" where
  "store_empty E = (\<forall>i. case resources E i of Inr (Some rs) \<Rightarrow> rs = [] | _ \<Rightarrow> True)"

section \<open>Facts about effects\<close>

lemma clock_call [simp]: "clock (call e w) = Suc (clock w)"
  by (simp add: call_def)

lemma log_call [simp]: "log (call e w) = log w @ [e]"
  by (simp add: call_def)

lemma clock_sleep [simp]: "clock (sleep n w) = clock w"
  by (simp add: sleep_def)

lemma log_sleep [simp]: "log (sleep n w) = log w @ [Sleep n]"
  by (simp add: sleep_def)

lemma clock_sleep_uniform [simp]: "clock (sleep_uniform lo hi w) = clock w"
  by (simp add: sleep_uniform_def)

lemma log_sleep_uniform [simp]: "log (sleep_uniform lo hi w) = log w @ [SleepUniform lo hi]"
  by (simp add: sleep_uniform_def)

section \<open>The retrying page fetch\<close>

lemma fetch_attempt_world:
  "fetch_attempt E u w = (x, w1) \<Longrightarrow> w1 = call (SessionGet u) w"
  by (auto simp: fetch_attempt_def session_get_def split: sum.splits)

lemma fetch_attempt_fails:
  "get_fails (http E (clock w)) \<Longrightarrow>
   fetch_attempt E u w = (Inl (get_error (http E (clock w))), call (SessionGet u) w)"
  by (auto simp: fetch_attempt_def session_get_def get_fails_def get_error_def
      raise_for_status_def split: sum.splits)

lemma fetch_attempt_succeeds:
  "http E (clock w) = Inr r \<Longrightarrow> status_code r < 400 \<Longrightarrow>
   fetch_attempt E u w = (Inr (content r), call (SessionGet u) w)"
  by (auto simp: fetch_attempt_def session_get_def raise_for_status_def)

lemma fetch_loop_gets:
  "session_gets (snd (fetch_loop E u m as w)) \<le> session_gets w + length as"
proof (induction as arbitrary: w)
  case Nil
  then show ?case by simp
next
  case (Cons a as)
  obtain x w1 where f: "fetch_attempt E u w = (x, w1)"
    by (cases "fetch_attempt E u w")
  then have w1: "w1 = call (SessionGet u) w"
    by (rule fetch_attempt_world)
  show ?case
  proof (cases x)
    case (Inl e)
    show ?thesis
      using Cons.IH [of "sleep (RETRY_DELAY * 2 ^ a) w1"] f Inl w1
      by (auto simp: session_gets_def)
  next
    case (Inr t)
    then show ?thesis using f w1 by (simp add: session_gets_def)
  qed
qed

lemma range_MAX_RETRIES: "[0 ..< nat MAX_RETRIES] = [0, 1, 2]"
  by (simp add: MAX_RETRIES_def upt_rec numeral_3_eq_3)

text \<open>
  C4. \<^verbatim>\<open>fetch_data_with_retry\<close> with the default bound makes at most 3 requests. When the
  first two attempts fail and the third succeeds, it returns the text of the third
  response, having slept \<open>RETRY_DELAY * 2 ^ 0\<close> and then \<open>RETRY_DELAY * 2 ^ 1\<close> seconds
  between the attempts. When the third attempt fails as well, it raises the error of that
  last attempt, after the same two sleeps and no third one.
\<close>

theorem fetch_data_with_retry_three_attempts:
  "session_gets (snd (fetch_data_with_retry E u MAX_RETRIES w)) \<le> session_gets w + 3
   \<and> (get_fails (http E (clock w)) \<and> get_fails (http E (clock w + 1))
        \<and> http E (clock w + 2) = Inr r \<and> status_code r < 400 \<longrightarrow>
      fetch_data_with_retry E u MAX_RETRIES w =
        (Inr (Some (content r)),
         \<lparr>clock = clock w + 3,
          log = log w @ [SessionGet u, Sleep (RETRY_DELAY * 2 ^ 0), SessionGet u,
                         Sleep (RETRY_DELAY * 2 ^ 1), SessionGet u]\<rparr>))
   \<and> (get_fails (http E (clock w)) \<and> get_fails (http E (clock w + 1))
        \<and> get_fails (http E (clock w + 2)) \<longrightarrow>
      fetch_data_with_retry E u MAX_RETRIES w =
        (Inl (get_error (http E (clock w + 2))),
         \<lparr>clock = clock w + 3,
          log = log w @ [SessionGet u, Sleep (RETRY_DELAY * 2 ^ 0), SessionGet u,
                         Sleep (RETRY_DELAY * 2 ^ 1), SessionGet u]\<rparr>))"
proof (intro conjI impI)
  show "session_gets (snd (fetch_data_with_retry E u MAX_RETRIES w)) \<le> session_gets w + 3"
    using fetch_loop_gets [of E u MAX_RETRIES "[0, 1, 2]" w]
    by (simp add: fetch_data_with_retry_def range_MAX_RETRIES)
next
  assume a: "get_fails (http E (clock w)) \<and> get_fails (http E (clock w + 1))
        \<and> http E (clock w + 2) = Inr r \<and> status_code r < 400"
  let ?w1 = "sleep (RETRY_DELAY * 2 ^ 0) (call (SessionGet u) w)"
  let ?w2 = "sleep (RETRY_DELAY * 2 ^ 1) (call (SessionGet u) ?w1)"
  have 1: "fetch_attempt E u w = (Inl (get_error (http E (clock w))), call (SessionGet u) w)"
    using a by (simp add: fetch_attempt_fails)
  have 2: "fetch_attempt E u ?w1
             = (Inl (get_error (http E (clock ?w1))), call (SessionGet u) ?w1)"
    using a by (intro fetch_attempt_fails) simp
  have 3: "fetch_attempt E u ?w2 = (Inr (content r), call (SessionGet u) ?w2)"
    using a by (intro fetch_attempt_succeeds) simp_all
  show "fetch_data_with_retry E u MAX_RETRIES w =
        (Inr (Some (content r)),
         \<lparr>clock = clock w + 3,
          log = log w @ [SessionGet u, Sleep (RETRY_DELAY * 2 ^ 0), SessionGet u,
                         Sleep (RETRY_DELAY * 2 ^ 1), SessionGet u]\<rparr>)"
    unfolding fetch_data_with_retry_def range_MAX_RETRIES
    using 1 2 3 by (simp add: MAX_RETRIES_def call_def sleep_def)
next
  assume a: "get_fails (http E (clock w)) \<and> get_fails (http E (clock w + 1))
        \<and> get_fails (http E (clock w + 2))"
  let ?w1 = "sleep (RETRY_DELAY * 2 ^ 0) (call (SessionGet u) w)"
  let ?w2 = "sleep (RETRY_DELAY * 2 ^ 1) (call (SessionGet u) ?w1)"
  have 1: "fetch_attempt E u w = (Inl (get_error (http E (clock w))), call (SessionGet u) w)"
    using a by (simp add: fetch_attempt_fails)
  have 2: "fetch_attempt E u ?w1
             = (Inl (get_error (http E (clock ?w1))), call (SessionGet u) ?w1)"
    using a by (intro fetch_attempt_fails) simp
  have 3: "fetch_attempt E u ?w2
             = (Inl (get_error (http E (clock ?w2))), call (SessionGet u) ?w2)"
    using a by (intro fetch_attempt_fails) simp
  show "fetch_data_with_retry E u MAX_RETRIES w =
        (Inl (get_error (http E (clock w + 2))),
         \<lparr>clock = clock w + 3,
          log = log w @ [SessionGet u, Sleep (RETRY_DELAY * 2 ^ 0), SessionGet u,
                         Sleep (RETRY_DELAY * 2 ^ 1), SessionGet u]\<rparr>)"
    unfolding fetch_data_with_retry_def range_MAX_RETRIES
    using 1 2 3 by (simp add: MAX_RETRIES_def call_def sleep_def)
qed

text \<open>
  The theorem at a site that answers 503, then resets the connection, then answers 200;
  and at a site that answers 503 three times.
\<close>

theorem fetch_data_with_retry_three_attempts_witness:
  "fetch_data_with_retry
     \<lparr>http = (\<lambda>n. if n = 0 then Inr \<lparr>status_code = 503, retry_after = NoHeader, content = []\<rparr>
                   else if n = 1 then Inl ClientError
                   else Inr \<lparr>status_code = 200, retry_after = NoHeader, content = ''<html>''\<rparr>),
      resources = (\<lambda>n. Inr None), uploader = (\<lambda>n. UploadError),
      select_images = (\<lambda>t. Inr [])\<rparr>
     ''https://komikcast.cz/komik/alpha/'' MAX_RETRIES \<lparr>clock = 0, log = []\<rparr>
   = (Inr (Some ''<html>''),
      \<lparr>clock = 3,
       log = [SessionGet ''https://komikcast.cz/komik/alpha/'', Sleep 2,
              SessionGet ''https://komikcast.cz/komik/alpha/'', Sleep 4,
              SessionGet ''https://komikcast.cz/komik/alpha/'']\<rparr>)
   \<and> fetch_data_with_retry
       \<lparr>http = (\<lambda>n. Inr \<lparr>status_code = 503, retry_after = NoHeader, content = []\<rparr>),
        resources = (\<lambda>n. Inr None), uploader = (\<lambda>n. UploadError),
        select_images = (\<lambda>t. Inr [])\<rparr>
       ''https://komikcast.cz/komik/alpha/'' MAX_RETRIES \<lparr>clock = 0, log = []\<rparr>
     = (Inl ClientError,
        \<lparr>clock = 3,
         log = [SessionGet ''https://komikcast.cz/komik/alpha/'', Sleep 2,
                SessionGet ''https://komikcast.cz/komik/alpha/'', Sleep 4,
                SessionGet ''https://komikcast.cz/komik/alpha/'']\<rparr>)"
  using fetch_data_with_retry_three_attempts
    [of "\<lparr>http = (\<lambda>n. if n = 0 then Inr \<lparr>status_code = 503, retry_after = NoHeader, content = []\<rparr>
                   else if n = 1 then Inl ClientError
                   else Inr \<lparr>status_code = 200, retry_after = NoHeader, content = ''<html>''\<rparr>),
      resources = (\<lambda>n. Inr None), uploader = (\<lambda>n. UploadError),
      select_images = (\<lambda>t. Inr [])\<rparr>"
       "''https://komikcast.cz/komik/alpha/''" "\<lparr>clock = 0, log = []\<rparr>"
       "\<lparr>status_code = 200, retry_after = NoHeader, content = ''<html>''\<rparr>"]
    fetch_data_with_retry_three_attempts
    [of "\<lparr>http = (\<lambda>n. Inr \<lparr>status_code = 503, retry_after = NoHeader, content = []\<rparr>),
        resources = (\<lambda>n. Inr None), uploader = (\<lambda>n. UploadError),
        select_images = (\<lambda>t. Inr [])\<rparr>"
       "''https://komikcast.cz/komik/alpha/''" "\<lparr>clock = 0, log = []\<rparr>"]
  by (simp add: get_fails_def get_error_def RETRY_DELAY_def)

section \<open>The image download\<close>

lemma download_attempt_cases:
  assumes "download_attempt E u s c b w = (f, w1)"
  shows "((\<exists>e. f = Raise e) \<and> w1 = call (SessionGet u) w)
       \<or> (f = Continue \<and> (\<exists>r. http E (clock w) = Inr r \<and> status_code r = 429
              \<and> retry_after r \<noteq> Malformed
              \<and> w1 = sleep (wait_time r) (call (SessionGet u) w)))
       \<or> (f \<noteq> Continue \<and> f \<noteq> Raise ClientError
              \<and> (\<exists>fo fi. w1 = call (UploaderUpload fo fi) (call (SessionGet u) w)))"
  using assms
  by (auto simp: download_attempt_def session_get_def upload_image_def raise_for_status_def
      split: sum.splits if_splits prod.splits option.splits upload_outcome.splits)

lemma download_attempt_429:
  assumes "http E (clock w) = Inr r" "status_code r = 429" "retry_after r \<noteq> Malformed"
  shows "download_attempt E u s c b w = (Continue, sleep (wait_time r) (call (SessionGet u) w))"
  using assms by (simp add: download_attempt_def session_get_def)

lemma session_gets_simps [simp]:
  "session_gets (call (SessionGet u) w) = Suc (session_gets w)"
  "session_gets (call (UploaderUpload fo fi) w) = session_gets w"
  "session_gets (call (ApiResources p) w) = session_gets w"
  "session_gets (call (RequestsGet u) w) = session_gets w"
  "session_gets (sleep n w) = session_gets w"
  "session_gets (sleep_uniform lo hi w) = session_gets w"
  by (simp_all add: session_gets_def)

lemma page_gets_simps [simp]:
  "page_gets (call (SessionGet u) w) = page_gets w"
  "page_gets (call (UploaderUpload fo fi) w) = page_gets w"
  "page_gets (call (ApiResources p) w) = page_gets w"
  "page_gets (call (RequestsGet u) w) = Suc (page_gets w)"
  "page_gets (sleep n w) = page_gets w"
  "page_gets (sleep_uniform lo hi w) = page_gets w"
  by (simp_all add: page_gets_def)

lemma uploads_simps [simp]:
  "uploads (call (SessionGet u) w) = uploads w"
  "uploads (call (UploaderUpload fo fi) w) = Suc (uploads w)"
  "uploads (call (ApiResources p) w) = uploads w"
  "uploads (call (RequestsGet u) w) = uploads w"
  "uploads (sleep n w) = uploads w"
  "uploads (sleep_uniform lo hi w) = uploads w"
  by (simp_all add: uploads_def)

lemma download_loop_gets:
  "session_gets (snd (download_loop E u s c b k as w)) \<le> session_gets w + length as"
proof (induction as arbitrary: w)
  case Nil
  then show ?case by simp
next
  case (Cons a as)
  obtain f w1 where d: "download_attempt E u s c b w = (f, w1)"
    by (cases "download_attempt E u s c b w")
  from download_attempt_cases [OF d] have g: "session_gets w1 = Suc (session_gets w)"
    by auto
  show ?case
  proof (cases f)
    case (Return x)
    then show ?thesis using d g by simp
  next
    case Continue
    then show ?thesis using d g Cons.IH [of w1] by simp
  next
    case (Raise e)
    then show ?thesis
      using d g Cons.IH [of "sleep (2 ^ a) w1"] by simp
  qed
qed

lemma download_loop_page_gets:
  "page_gets (snd (download_loop E u s c b k as w)) = page_gets w"
proof (induction as arbitrary: w)
  case Nil
  then show ?case by simp
next
  case (Cons a as)
  obtain f w1 where d: "download_attempt E u s c b w = (f, w1)"
    by (cases "download_attempt E u s c b w")
  from download_attempt_cases [OF d] have g: "page_gets w1 = page_gets w"
    by auto
  show ?case
  proof (cases f)
    case (Return x)
    then show ?thesis using d g by simp
  next
    case Continue
    then show ?thesis using d g Cons.IH [of w1] by simp
  next
    case (Raise e)
    then show ?thesis
      using d g Cons.IH [of "sleep (2 ^ a) w1"] by simp
  qed
qed

lemma download_loop_uploads:
  "uploads (snd (download_loop E u s c b k as w)) \<le> uploads w + 1"
proof (induction as arbitrary: w)
  case Nil
  then show ?case by simp
next
  case (Cons a as)
  obtain f w1 where d: "download_attempt E u s c b w = (f, w1)"
    by (cases "download_attempt E u s c b w")
  note c = download_attempt_cases [OF d]
  show ?case
  proof (cases f)
    case (Return x)
    then show ?thesis using d c by auto
  next
    case Continue
    then show ?thesis using d c Cons.IH [of w1] by auto
  next
    case (Raise e)
    show ?thesis
    proof (cases "e = ClientError")
      case True
      then have "uploads w1 = uploads w" using c Raise by auto
      then show ?thesis
        using d Raise True Cons.IH [of "sleep (2 ^ a) w1"] by auto
    next
      case False
      then show ?thesis using d c Raise by auto
    qed
  qed
qed

lemma download_loop_log_prefix:
  "\<exists>rest. log (snd (download_loop E u s c b k as w)) = log w @ rest"
proof (induction as arbitrary: w)
  case Nil
  then show ?case by simp
next
  case (Cons a as)
  obtain f w1 where d: "download_attempt E u s c b w = (f, w1)"
    by (cases "download_attempt E u s c b w")
  from download_attempt_cases [OF d] obtain r1 where w1: "log w1 = log w @ r1"
    by auto
  show ?case
  proof (cases f)
    case (Return x)
    then show ?thesis using d w1 by simp
  next
    case Continue
    then show ?thesis using d w1 Cons.IH [of w1] by auto
  next
    case (Raise e)
    then show ?thesis
      using d w1 Cons.IH [of "sleep (2 ^ a) w1"] by auto
  qed
qed

lemma download_loop_first_get:
  assumes "as \<noteq> []"
  shows "\<exists>rest. log (snd (download_loop E u s c b k as w)) = log w @ SessionGet u # rest"
proof -
  obtain a as' where as: "as = a # as'" using assms by (cases as) auto
  obtain f w1 where d: "download_attempt E u s c b w = (f, w1)"
    by (cases "download_attempt E u s c b w")
  from download_attempt_cases [OF d] obtain r1 where w1: "log w1 = log w @ SessionGet u # r1"
    by auto
  show ?thesis
  proof (cases f)
    case (Return x)
    then show ?thesis using d w1 as by simp
  next
    case Continue
    then show ?thesis
      using d w1 as download_loop_log_prefix [of E u s c b k as' w1] by auto
  next
    case (Raise e)
    then show ?thesis
      using d w1 as download_loop_log_prefix [of E u s c b k as' "sleep (2 ^ a) w1"] by auto
  qed
qed

lemma waits_Suc: "waits E u t (Suc j) = [SessionGet u, Sleep (wait_time (projr (http E t)))] @ waits E u (Suc t) j"
proof -
  have "[0 ..< Suc j] = 0 # map Suc [0 ..< j]"
    by (simp add: upt_conv_Cons map_Suc_upt del: upt_Suc)
  then show ?thesis
    by (simp add: waits_def comp_def del: upt_Suc)
qed

lemma download_loop_429s:
  assumes "j \<le> length as"
    and "\<forall>i<j. \<exists>r. http E (clock w + i) = Inr r \<and> status_code r = 429 \<and> retry_after r \<noteq> Malformed"
  shows "download_loop E u s c b k as w =
         download_loop E u s c b k (drop j as) \<lparr>clock = clock w + j, log = log w @ waits E u (clock w) j\<rparr>"
  using assms
proof (induction j arbitrary: as w)
  case 0
  have eq: "\<lparr>clock = clock w, log = log w\<rparr> = w" by (cases w) simp
  show ?case by (simp add: waits_def eq)
next
  case (Suc j)
  obtain a as' where as: "as = a # as'" using Suc.prems(1) by (cases as) auto
  from Suc.prems(2) obtain r where r: "http E (clock w) = Inr r" "status_code r = 429"
      "retry_after r \<noteq> Malformed"
    by (metis add.right_neutral zero_less_Suc)
  let ?w1 = "sleep (wait_time r) (call (SessionGet u) w)"
  have d: "download_attempt E u s c b w = (Continue, ?w1)"
    using r by (rule download_attempt_429)
  have "\<forall>i<j. \<exists>r. http E (clock ?w1 + i) = Inr r \<and> status_code r = 429 \<and> retry_after r \<noteq> Malformed"
    using Suc.prems(2) by (auto simp: less_Suc_eq_0_disj)
  moreover have "j \<le> length as'" using Suc.prems(1) as by simp
  ultimately have "download_loop E u s c b k as' ?w1 =
      download_loop E u s c b k (drop j as')
        \<lparr>clock = clock ?w1 + j, log = log ?w1 @ waits E u (clock ?w1) j\<rparr>"
    by (rule Suc.IH [rotated])
  then show ?case
    using d as r by (simp add: waits_Suc)
qed

text \<open>
  C2, as the code has it. A response 429 makes \<^verbatim>\<open>download_image\<close> sleep for the seconds of
  \<^verbatim>\<open>Retry-After\<close> (60 without the header) and go to the next attempt of the one loop
  \<^verbatim>\<open>for attempt in range(retries)\<close>: the response uses up an attempt. So the function makes
  at most \<open>retries\<close> requests whatever the responses are, and after \<open>j\<close> responses 429 in
  a row, \<open>j\<close> less than \<open>retries\<close>, it has slept \<open>j\<close> times as asked and makes the
  request again.
\<close>

theorem download_image_429_consumes_attempt:
  "session_gets (snd (download_image E u s c b k w)) \<le> session_gets w + nat k
   \<and> (j < nat k
        \<and> (\<forall>i<j. \<exists>r. http E (clock w + i) = Inr r \<and> status_code r = 429
                      \<and> retry_after r \<noteq> Malformed) \<longrightarrow>
      (\<exists>rest. log (snd (download_image E u s c b k w)) =
                log w @ [SleepUniform 2 5] @ waits E u (clock w) j @ SessionGet u # rest))"
proof (intro conjI impI)
  show "session_gets (snd (download_image E u s c b k w)) \<le> session_gets w + nat k"
    using download_loop_gets [of E u s c b k "[0 ..< nat k]" "sleep_uniform 2 5 w"]
    by (simp add: download_image_def)
next
  assume a: "j < nat k
        \<and> (\<forall>i<j. \<exists>r. http E (clock w + i) = Inr r \<and> status_code r = 429
                      \<and> retry_after r \<noteq> Malformed)"
  let ?w0 = "sleep_uniform 2 5 w"
  let ?w1 = "\<lparr>clock = clock ?w0 + j, log = log ?w0 @ waits E u (clock ?w0) j\<rparr>"
  have "download_loop E u s c b k [0 ..< nat k] ?w0
        = download_loop E u s c b k (drop j [0 ..< nat k]) ?w1"
    using a by (intro download_loop_429s) auto
  moreover have "drop j [0 ..< nat k] \<noteq> []" using a by auto
  from download_loop_first_get [OF this, of E u s c b k ?w1]
  obtain rest where "log (snd (download_loop E u s c b k (drop j [0 ..< nat k]) ?w1))
       = log ?w1 @ SessionGet u # rest" by blast
  ultimately show "\<exists>rest. log (snd (download_image E u s c b k w)) =
                log w @ [SleepUniform 2 5] @ waits E u (clock w) j @ SessionGet u # rest"
    by (simp add: download_image_def)
qed

lemma upt3: "[0 ..< 3] = [0, 1, 2]"
  by (simp add: upt_rec numeral_3_eq_3)

text \<open>
  The theorem at a site that answers 429 with \<^verbatim>\<open>Retry-After: 5\<close> once and 200 afterwards:
  one sleep of 5 seconds, then the request again.
\<close>

theorem download_image_429_consumes_attempt_witness:
  "\<exists>rest.
         log (snd (download_image
                \<lparr>http = (\<lambda>n. if n < 1
                               then Inr \<lparr>status_code = 429, retry_after = Seconds 5, content = []\<rparr>
                               else Inr \<lparr>status_code = 200, retry_after = NoHeader,
                                        content = ''image''\<rparr>),
                 resources = (\<lambda>n. Inr (Some [])),
                 uploader = (\<lambda>n. UploadResult [(''secure_url'', ''https://res.example/1'')]),
                 select_images = (\<lambda>t. Inr [])\<rparr>
                ''https://cdn.example/001.jpg'' ''alpha'' (Some ''2'') False 3
                \<lparr>clock = 0, log = []\<rparr>))
         = [SleepUniform 2 5, SessionGet ''https://cdn.example/001.jpg'', Sleep 5,
            SessionGet ''https://cdn.example/001.jpg''] @ rest"
  using download_image_429_consumes_attempt
    [of "\<lparr>http = (\<lambda>n. if n < 1
                               then Inr \<lparr>status_code = 429, retry_after = Seconds 5, content = []\<rparr>
                               else Inr \<lparr>status_code = 200, retry_after = NoHeader,
                                        content = ''image''\<rparr>),
                 resources = (\<lambda>n. Inr (Some [])),
                 uploader = (\<lambda>n. UploadResult [(''secure_url'', ''https://res.example/1'')]),
                 select_images = (\<lambda>t. Inr [])\<rparr>"
        "''https://cdn.example/001.jpg''" "''alpha''" "Some ''2''" False 3
        "\<lparr>clock = 0, log = []\<rparr>" 1]
  by (simp add: waits_def wait_time_def)

text \<open>
  C2 as stated fails: the responses 429 are counted in the three attempts. At a site that
  answers 429 three times and 200 from then on, \<^verbatim>\<open>download_image\<close> makes three requests,
  sleeps after the third 429 as well, does not make the request again, and returns
  \<^verbatim>\<open>None\<close>. At a site that answers 429 once, then fails twice at the transport, and
  answers 200 from then on, the error is raised after two transport failures.
\<close>

theorem download_image_429_counterexample:
  "download_image
     \<lparr>http = (\<lambda>n. if n < 3 then Inr \<lparr>status_code = 429, retry_after = Seconds 5, content = []\<rparr>
                     else Inr \<lparr>status_code = 200, retry_after = NoHeader, content = ''image''\<rparr>),
      resources = (\<lambda>n. Inr (Some [])),
      uploader = (\<lambda>n. UploadResult [(''secure_url'', ''https://res.example/1'')]),
      select_images = (\<lambda>t. Inr [])\<rparr>
     ''https://cdn.example/001.jpg'' ''alpha'' (Some ''2'') False 3 \<lparr>clock = 0, log = []\<rparr>
   = (Inr None,
      \<lparr>clock = 3,
       log = [SleepUniform 2 5,
              SessionGet ''https://cdn.example/001.jpg'', Sleep 5,
              SessionGet ''https://cdn.example/001.jpg'', Sleep 5,
              SessionGet ''https://cdn.example/001.jpg'', Sleep 5]\<rparr>)
   \<and> download_image
       \<lparr>http = (\<lambda>n. if n = 0
                       then Inr \<lparr>status_code = 429, retry_after = Seconds 5, content = []\<rparr>
                     else if n < 3 then Inl ClientError
                     else Inr \<lparr>status_code = 200, retry_after = NoHeader, content = ''image''\<rparr>),
        resources = (\<lambda>n. Inr (Some [])),
        uploader = (\<lambda>n. UploadResult [(''secure_url'', ''https://res.example/1'')]),
        select_images = (\<lambda>t. Inr [])\<rparr>
       ''https://cdn.example/001.jpg'' ''alpha'' (Some ''2'') False 3 \<lparr>clock = 0, log = []\<rparr>
     = (Inl ClientError,
        \<lparr>clock = 3,
         log = [SleepUniform 2 5,
                SessionGet ''https://cdn.example/001.jpg'', Sleep 5,
                SessionGet ''https://cdn.example/001.jpg'', Sleep 2,
                SessionGet ''https://cdn.example/001.jpg'']\<rparr>)"
  by (simp add: download_image_def upt3 download_attempt_def session_get_def wait_time_def
      call_def sleep_def sleep_uniform_def)

section \<open>The chapter pipeline and the cover\<close>

lemma folder_exists_world:
  "snd (folder_exists E p w) = call (ApiResources p) w"
  by (simp add: folder_exists_def split: sum.splits option.splits)

lemma file_exists_world:
  "snd (file_exists E fo fi w) = call (ApiResources (fo @ ''/'' @ fi)) w"
  by (simp add: file_exists_def split: sum.splits option.splits)

text \<open>
  C1. When the existence check of the chapter's folder says that the folder has content,
  \<^verbatim>\<open>scrape_chapter_images\<close> returns the empty list at once: the query of the check is its
  only effect, so there is no fetch of the chapter page, no image download, no upload and
  no sleep.
\<close>

theorem scrape_chapter_images_skips_stored_chapter:
  assumes "chapter_num_match u = Some n"
    and "fst (folder_exists E (chapter_folder s n) w)"
  shows "scrape_chapter_images E u s w = ([], call (ApiResources (chapter_folder s n)) w)
         \<and> log (snd (scrape_chapter_images E u s w)) = log w @ [ApiResources (chapter_folder s n)]
         \<and> page_gets (snd (scrape_chapter_images E u s w)) = page_gets w
         \<and> session_gets (snd (scrape_chapter_images E u s w)) = session_gets w
         \<and> uploads (snd (scrape_chapter_images E u s w)) = uploads w"
proof -
  have "folder_exists E (chapter_folder s n) w = (True, call (ApiResources (chapter_folder s n)) w)"
    using assms(2) folder_exists_world [of E "chapter_folder s n" w]
    by (cases "folder_exists E (chapter_folder s n) w") simp
  then show ?thesis
    using assms(1) by (simp add: scrape_chapter_images_def)
qed

lemma chapter_num_match_example:
  "chapter_num_match ''https://komikcast.cz/chapter/alpha-chapter-2/'' = Some ''2''"
  by (simp add: is_digit_def)

theorem scrape_chapter_images_skips_stored_chapter_witness:
  "chapter_num_match ''https://komikcast.cz/chapter/alpha-chapter-2/'' = Some ''2''
   \<and> fst (folder_exists
           \<lparr>http = (\<lambda>n. Inl OtherError),
            resources = (\<lambda>n. Inr (Some [''alpha/chapter-2/001''])),
            uploader = (\<lambda>n. UploadCrash), select_images = (\<lambda>t. Inr [])\<rparr>
           (chapter_folder ''alpha'' ''2'') \<lparr>clock = 0, log = []\<rparr>)
   \<and> scrape_chapter_images
         \<lparr>http = (\<lambda>n. Inl OtherError),
          resources = (\<lambda>n. Inr (Some [''alpha/chapter-2/001''])),
          uploader = (\<lambda>n. UploadCrash), select_images = (\<lambda>t. Inr [])\<rparr>
         ''https://komikcast.cz/chapter/alpha-chapter-2/'' ''alpha'' \<lparr>clock = 0, log = []\<rparr>
       = ([], \<lparr>clock = 1, log = [ApiResources ''alpha/chapter-2'']\<rparr>)"
proof -
  have 1: "chapter_num_match ''https://komikcast.cz/chapter/alpha-chapter-2/'' = Some ''2''"
    by (rule chapter_num_match_example)
  have 2: "fst (folder_exists
           \<lparr>http = (\<lambda>n. Inl OtherError),
            resources = (\<lambda>n. Inr (Some [''alpha/chapter-2/001''])),
            uploader = (\<lambda>n. UploadCrash), select_images = (\<lambda>t. Inr [])\<rparr>
           (chapter_folder ''alpha'' ''2'') \<lparr>clock = 0, log = []\<rparr>)"
    by (simp add: folder_exists_def)
  show ?thesis
    using 1 2 scrape_chapter_images_skips_stored_chapter [OF 1 2]
    by (simp add: call_def chapter_folder_def)
qed

lemma fetch_data_fails:
  "page_fails (http E (clock w)) \<Longrightarrow> \<exists>e. fetch_data E u w = (Inl e, call (RequestsGet u) w)"
  by (auto simp: fetch_data_def requests_get_def page_fails_def split: sum.splits)

lemma fetch_data_world: "snd (fetch_data E u w) = call (RequestsGet u) w"
  by (simp add: fetch_data_def requests_get_def split: sum.splits)

lemma download_image_page_gets:
  "page_gets (snd (download_image E u s c b k w)) = page_gets w"
  by (simp add: download_image_def download_loop_page_gets)

lemma download_all_page_gets:
  "page_gets (snd (download_all E imgs s n acc w)) = page_gets w"
proof (induction imgs arbitrary: acc w)
  case Nil
  then show ?case by simp
next
  case (Cons i imgs)
  obtain r w1 where d: "download_image E i s (Some n) False 3 w = (r, w1)"
    by (cases "download_image E i s (Some n) False 3 w")
  then have "page_gets w1 = page_gets w"
    using download_image_page_gets [of E i s "Some n" False 3 w] by simp
  then show ?case
    using d Cons.IH by (cases r) auto
qed

text \<open>
  C3, as the code has it. \<^verbatim>\<open>scrape_chapter_images\<close> gets the chapter page with
  \<^verbatim>\<open>fetch_data\<close>, one \<^verbatim>\<open>requests.get\<close> with no retry: it makes at most one page request,
  and when that request fails the chapter fails at once, with the empty list, no sleep and
  no second request.
\<close>

theorem scrape_chapter_images_fetches_once:
  "page_gets (snd (scrape_chapter_images E u s w)) \<le> page_gets w + 1
   \<and> (chapter_num_match u = Some n
        \<and> \<not> fst (folder_exists E (chapter_folder s n) w)
        \<and> page_fails (http E (clock w + 1)) \<longrightarrow>
      scrape_chapter_images E u s w =
        ([], call (RequestsGet u) (call (ApiResources (chapter_folder s n)) w)))"
proof (intro conjI impI)
  show "page_gets (snd (scrape_chapter_images E u s w)) \<le> page_gets w + 1"
  proof (cases "chapter_num_match u")
    case None
    then show ?thesis by (simp add: scrape_chapter_images_def)
  next
    case (Some m)
    let ?w1 = "call (ApiResources (chapter_folder s m)) w"
    obtain x where x: "folder_exists E (chapter_folder s m) w = (x, ?w1)"
      using folder_exists_world [of E "chapter_folder s m" w]
      by (cases "folder_exists E (chapter_folder s m) w") simp
    let ?w2 = "call (RequestsGet u) ?w1"
    obtain y where y: "fetch_data E u ?w1 = (y, ?w2)"
      using fetch_data_world [of E u ?w1] by (cases "fetch_data E u ?w1") simp
    show ?thesis
      using Some x y download_all_page_gets [of E _ s m "[]" ?w2]
      by (auto simp: scrape_chapter_images_def split: sum.splits bool.splits)
  qed
next
  assume a: "chapter_num_match u = Some n
        \<and> \<not> fst (folder_exists E (chapter_folder s n) w)
        \<and> page_fails (http E (clock w + 1))"
  let ?w1 = "call (ApiResources (chapter_folder s n)) w"
  have x: "folder_exists E (chapter_folder s n) w = (False, ?w1)"
    using a folder_exists_world [of E "chapter_folder s n" w]
    by (cases "folder_exists E (chapter_folder s n) w") simp
  have "page_fails (http E (clock ?w1))" using a by simp
  from fetch_data_fails [OF this] obtain e where
    "fetch_data E u ?w1 = (Inl e, call (RequestsGet u) ?w1)" by blast
  then show "scrape_chapter_images E u s w =
        ([], call (RequestsGet u) (call (ApiResources (chapter_folder s n)) w))"
    using a x by (simp add: scrape_chapter_images_def)
qed

theorem scrape_chapter_images_fetches_once_witness:
  "chapter_num_match ''https://komikcast.cz/chapter/alpha-chapter-2/'' = Some ''2''
   \<and> \<not> fst (folder_exists
             \<lparr>http = (\<lambda>n. Inl RequestException), resources = (\<lambda>n. Inr (Some [])),
              uploader = (\<lambda>n. UploadCrash), select_images = (\<lambda>t. Inr [])\<rparr>
             (chapter_folder ''alpha'' ''2'') \<lparr>clock = 0, log = []\<rparr>)
   \<and> page_fails (http \<lparr>http = (\<lambda>n. Inl RequestException), resources = (\<lambda>n. Inr (Some [])),
                          uploader = (\<lambda>n. UploadCrash), select_images = (\<lambda>t. Inr [])\<rparr>
                    (clock \<lparr>clock = 0, log = []\<rparr> + 1))
   \<and> scrape_chapter_images
         \<lparr>http = (\<lambda>n. Inl RequestException), resources = (\<lambda>n. Inr (Some [])),
          uploader = (\<lambda>n. UploadCrash), select_images = (\<lambda>t. Inr [])\<rparr>
         ''https://komikcast.cz/chapter/alpha-chapter-2/'' ''alpha'' \<lparr>clock = 0, log = []\<rparr>
       = ([], \<lparr>clock = 2,
               log = [ApiResources ''alpha/chapter-2'',
                      RequestsGet ''https://komikcast.cz/chapter/alpha-chapter-2/'']\<rparr>)"
  using scrape_chapter_images_fetches_once
    [of "\<lparr>http = (\<lambda>n. Inl RequestException), resources = (\<lambda>n. Inr (Some [])),
          uploader = (\<lambda>n. UploadCrash), select_images = (\<lambda>t. Inr [])\<rparr>"
        "''https://komikcast.cz/chapter/alpha-chapter-2/''" "''alpha''"
        "\<lparr>clock = 0, log = []\<rparr>" "''2''"]
    chapter_num_match_example
  by (simp add: folder_exists_def page_fails_def call_def chapter_folder_def)

text \<open>
  C3 as stated fails: the chapter page is not fetched through the retrying fetcher. At a
  site that answers the page request with 503 once and with 200 to every later request,
  the chapter fails after that one request: no sleep, no second attempt.
\<close>

theorem scrape_chapter_images_retry_counterexample:
  "scrape_chapter_images
     \<lparr>http = (\<lambda>n. if n = 1 then Inr \<lparr>status_code = 503, retry_after = NoHeader, content = []\<rparr>
                   else Inr \<lparr>status_code = 200, retry_after = NoHeader, content = ''<html>''\<rparr>),
      resources = (\<lambda>n. Inr (Some [])),
      uploader = (\<lambda>n. UploadResult [(''secure_url'', ''https://res.example/1'')]),
      select_images = (\<lambda>t. Inr [''https://cdn.example/001.jpg''])\<rparr>
     ''https://komikcast.cz/chapter/alpha-chapter-2/'' ''alpha'' \<lparr>clock = 0, log = []\<rparr>
   = ([], \<lparr>clock = 2,
           log = [ApiResources ''alpha/chapter-2'',
                  RequestsGet ''https://komikcast.cz/chapter/alpha-chapter-2/'']\<rparr>)"
  by (simp add: scrape_chapter_images_def is_digit_def folder_exists_def
      chapter_folder_def fetch_data_def requests_get_def call_def)

text \<open>
  C8. When the existence check for the cover reports it present after a first call of
  \<^verbatim>\<open>handle_cover_image\<close> (as it does once the first call has uploaded the cover), a second
  call for the same comic stops at \<^verbatim>\<open>file_exists\<close>: its only effect is the query, it
  returns \<^verbatim>\<open>None\<close> without download or upload, and the two calls together make at most
  one upload.
\<close>

theorem handle_cover_image_second_call_skips:
  assumes "fst (file_exists E s ''cover'' (snd (handle_cover_image E u1 s w)))"
  shows "handle_cover_image E u2 s (snd (handle_cover_image E u1 s w)) =
           (Inr None, call (ApiResources (s @ ''/cover'')) (snd (handle_cover_image E u1 s w)))
         \<and> uploads (snd (handle_cover_image E u2 s (snd (handle_cover_image E u1 s w))))
             \<le> uploads w + 1"
proof -
  let ?w1 = "snd (handle_cover_image E u1 s w)"
  have f: "file_exists E s ''cover'' ?w1 = (True, call (ApiResources (s @ ''/cover'')) ?w1)"
    using assms file_exists_world [of E s "''cover''" ?w1]
    by (cases "file_exists E s ''cover'' ?w1") simp
  then have second: "handle_cover_image E u2 s ?w1 = (Inr None, call (ApiResources (s @ ''/cover'')) ?w1)"
    by (simp add: handle_cover_image_def)
  let ?w0 = "call (ApiResources (s @ ''/cover'')) w"
  obtain x where x: "file_exists E s ''cover'' w = (x, ?w0)"
    using file_exists_world [of E s "''cover''" w]
    by (cases "file_exists E s ''cover'' w") simp
  have "uploads (snd (download_image E u1 s None True 3 ?w0)) \<le> uploads ?w0 + 1"
    using download_loop_uploads [of E u1 s None True 3 "[0 ..< nat 3]" "sleep_uniform 2 5 ?w0"]
    by (simp add: download_image_def)
  then have "uploads ?w1 \<le> uploads w + 1"
    using x by (auto simp: handle_cover_image_def split: prod.splits sum.splits bool.splits)
  then show ?thesis using second by simp
qed

text \<open>
  The theorem at a store that has no cover at the first query and has it afterwards: the
  first call downloads and uploads the cover, the second call only asks.
\<close>

theorem handle_cover_image_second_call_skips_witness:
  "handle_cover_image
     \<lparr>http = (\<lambda>n. Inr \<lparr>status_code = 200, retry_after = NoHeader, content = ''image''\<rparr>),
      resources = (\<lambda>n. if n = 0 then Inr (Some []) else Inr (Some [''alpha/cover''])),
      uploader = (\<lambda>n. UploadResult [(''secure_url'', ''https://res.example/cover'')]),
      select_images = (\<lambda>t. Inr [])\<rparr>
     ''https://cdn.example/cover.jpg'' ''alpha'' \<lparr>clock = 0, log = []\<rparr>
   = (Inr (Some ''https://res.example/cover''),
      \<lparr>clock = 3,
       log = [ApiResources ''alpha/cover'', SleepUniform 2 5,
              SessionGet ''https://cdn.example/cover.jpg'', UploaderUpload ''alpha'' ''cover'']\<rparr>)
   \<and> fst (file_exists
           \<lparr>http = (\<lambda>n. Inr \<lparr>status_code = 200, retry_after = NoHeader, content = ''image''\<rparr>),
            resources = (\<lambda>n. if n = 0 then Inr (Some []) else Inr (Some [''alpha/cover''])),
            uploader = (\<lambda>n. UploadResult [(''secure_url'', ''https://res.example/cover'')]),
            select_images = (\<lambda>t. Inr [])\<rparr>
           ''alpha'' ''cover''
           \<lparr>clock = 3,
            log = [ApiResources ''alpha/cover'', SleepUniform 2 5,
                   SessionGet ''https://cdn.example/cover.jpg'',
                   UploaderUpload ''alpha'' ''cover'']\<rparr>)
   \<and> handle_cover_image
         \<lparr>http = (\<lambda>n. Inr \<lparr>status_code = 200, retry_after = NoHeader, content = ''image''\<rparr>),
          resources = (\<lambda>n. if n = 0 then Inr (Some []) else Inr (Some [''alpha/cover''])),
          uploader = (\<lambda>n. UploadResult [(''secure_url'', ''https://res.example/cover'')]),
          select_images = (\<lambda>t. Inr [])\<rparr>
         ''https://cdn.example/cover.jpg'' ''alpha''
         \<lparr>clock = 3,
          log = [ApiResources ''alpha/cover'', SleepUniform 2 5,
                 SessionGet ''https://cdn.example/cover.jpg'',
                 UploaderUpload ''alpha'' ''cover'']\<rparr>
       = (Inr None,
          \<lparr>clock = 4,
           log = [ApiResources ''alpha/cover'', SleepUniform 2 5,
                  SessionGet ''https://cdn.example/cover.jpg'',
                  UploaderUpload ''alpha'' ''cover'', ApiResources ''alpha/cover'']\<rparr>)"
proof -
  let ?E = "\<lparr>http = (\<lambda>n. Inr \<lparr>status_code = 200, retry_after = NoHeader, content = ''image''\<rparr>),
      resources = (\<lambda>n. if n = 0 then Inr (Some []) else Inr (Some [''alpha/cover''])),
      uploader = (\<lambda>n. UploadResult [(''secure_url'', ''https://res.example/cover'')]),
      select_images = (\<lambda>t. Inr [])\<rparr>"
  let ?w1 = "\<lparr>clock = 3,
       log = [ApiResources ''alpha/cover'', SleepUniform 2 5,
              SessionGet ''https://cdn.example/cover.jpg'', UploaderUpload ''alpha'' ''cover'']\<rparr>"
  have first: "handle_cover_image ?E ''https://cdn.example/cover.jpg'' ''alpha''
                 \<lparr>clock = 0, log = []\<rparr>
               = (Inr (Some ''https://res.example/cover''), ?w1)"
    by (simp add: handle_cover_image_def file_exists_def download_image_def upt3
        download_attempt_def session_get_def raise_for_status_def upload_target_def
        upload_image_def truthy_def call_def sleep_uniform_def)
  have present: "fst (file_exists ?E ''alpha'' ''cover'' ?w1)"
    by (simp add: file_exists_def)
  show ?thesis
    using first present
      handle_cover_image_second_call_skips
        [of ?E "''alpha''" "''https://cdn.example/cover.jpg''" "\<lparr>clock = 0, log = []\<rparr>"
            "''https://cdn.example/cover.jpg''"]
    by (simp add: call_def)
qed

section \<open>The admission gate\<close>

lemma count_update:
  "i < length xs \<Longrightarrow>
   length (filter P (xs[i := y])) + (if P (xs ! i) then 1 else 0)
     = length (filter P xs) + (if P y then 1 else 0)"
proof (induction xs arbitrary: i)
  case Nil
  then show ?case by simp
next
  case (Cons x xs)
  show ?case
  proof (cases i)
    case 0
    then show ?thesis by simp
  next
    case (Suc j)
    then have "j < length xs" using Cons.prems by simp
    from Cons.IH [OF this] show ?thesis using Suc by simp
  qed
qed

lemma count_member:
  "i < length xs \<Longrightarrow> P (xs ! i) \<Longrightarrow> 1 \<le> length (filter P xs)"
proof -
  assume "i < length xs" "P (xs ! i)"
  then have "xs ! i \<in> set (filter P xs)" by simp
  then have "filter P xs \<noteq> []" by (metis empty_iff empty_set)
  then show ?thesis by (cases "filter P xs") simp_all
qed

lemma step_gate_ok:
  assumes "gate_ok s" and "step a s = Some s'"
  shows "gate_ok s'"
proof (cases a)
  case (Acquire i)
  then have c: "i < length (pipelines s)" "pipelines s ! i = Waiting" "0 < semaphore s"
    and s': "s' = s\<lparr>semaphore := semaphore s - 1, pipelines := (pipelines s)[i := Holding]\<rparr>"
    using assms(2) by (auto split: if_splits)
  from count_update [OF c(1), of "\<lambda>p. p = Holding" Holding] c(2)
  have "in_flight s' = Suc (in_flight s)" by (simp add: in_flight_def s')
  then show ?thesis using assms(1) c(3) by (simp add: gate_ok_def s')
next
  case (Request i)
  then have c: "i < length (pipelines s)" "pipelines s ! i = Holding"
    and s': "s' = s\<lparr>requests := requests s @ [(i, in_flight s)]\<rparr>"
    using assms(2) by (auto split: if_splits)
  from count_member [OF c(1), of "\<lambda>p. p = Holding"] c(2)
  have "1 \<le> in_flight s" by (simp add: in_flight_def)
  then show ?thesis using assms(1) by (simp add: gate_ok_def s' in_flight_def)
next
  case (Release i)
  then have c: "i < length (pipelines s)" "pipelines s ! i = Holding"
    and s': "s' = s\<lparr>semaphore := semaphore s + 1, pipelines := (pipelines s)[i := Finished]\<rparr>"
    using assms(2) by (auto split: if_splits)
  from count_update [OF c(1), of "\<lambda>p. p = Holding" Finished] c(2)
  have "Suc (in_flight s') = in_flight s" by (simp add: in_flight_def s')
  then show ?thesis using assms(1) by (auto simp: gate_ok_def s')
qed

lemma run_gate_ok: "gate_ok s \<Longrightarrow> run as s = Some s' \<Longrightarrow> gate_ok s'"
proof (induction as arbitrary: s)
  case Nil
  then show ?case by simp
next
  case (Cons a as)
  then obtain s1 where s1: "step a s = Some s1" "run as s1 = Some s'"
    by (auto split: option.splits)
  from step_gate_ok [OF Cons.prems(1) s1(1)] have "gate_ok s1" .
  from Cons.IH [OF this s1(2)] show ?case .
qed

lemma dispatch_gate_ok: "gate_ok (dispatch n)"
  by (simp add: gate_ok_def dispatch_def in_flight_def)



section \<open>The metadata store\<close>

lemma touch_first_split:
  "find (\<lambda>r. slug r = k) xs = Some c \<Longrightarrow>
   \<exists>pre post. xs = pre @ c # post \<and> (\<forall>r\<in>set pre. slug r \<noteq> k) \<and> slug c = k
      \<and> touch_first k now xs = pre @ c\<lparr>updated_on := now\<rparr> # post"
proof (induction xs)
  case Nil
  then show ?case by simp
next
  case (Cons x xs)
  show ?case
  proof (cases "slug x = k")
    case True
    then have "c = x" using Cons.prems by simp
    then have "x # xs = [] @ c # xs \<and> (\<forall>r\<in>set []. slug r \<noteq> k) \<and> slug c = k
      \<and> touch_first k now (x # xs) = [] @ c\<lparr>updated_on := now\<rparr> # xs"
      using True by simp
    then show ?thesis by blast
  next
    case False
    then have "find (\<lambda>r. slug r = k) xs = Some c" using Cons.prems by simp
    from Cons.IH [OF this] obtain pre post where
      p: "xs = pre @ c # post" "\<forall>r\<in>set pre. slug r \<noteq> k" "slug c = k"
         "touch_first k now xs = pre @ c\<lparr>updated_on := now\<rparr> # post"
      by blast
    then have "x # xs = (x # pre) @ c # post \<and> (\<forall>r\<in>set (x # pre). slug r \<noteq> k) \<and> slug c = k
      \<and> touch_first k now (x # xs) = (x # pre) @ c\<lparr>updated_on := now\<rparr> # post"
      using False by simp
    then show ?thesis by blast
  qed
qed

text \<open>
  C7. With the database at work: when no row has the slug and the metadata has all the
  keys, \<^verbatim>\<open>save_comic_metadata\<close> adds one row with the fields given; when a row has the
  slug, the first such row gets \<^verbatim>\<open>updated_on\<close> set to the present time and nothing else
  changes, in that row or in any other.
\<close>

theorem save_comic_metadata_upsert:
  "(find (\<lambda>r. slug r = k) (rows db) = None \<and> list_all (\<lambda>x. m x \<noteq> None) meta_keys \<longrightarrow>
      save_comic_metadata True now m k db =
        \<lparr>rows = rows db @
           [\<lparr>comic_id = next_id db,
             title = the (m ''title''), author = the (m ''author''), type = the (m ''type''),
             status = the (m ''status''), release = the (m ''release''), updated_on = now,
             genres = the (m ''genres''), synopsis = the (m ''synopsis''),
             rating = the (m ''rating''), cover_image_url = the (m ''cover_image_url''),
             slug = k\<rparr>],
         next_id = Suc (next_id db)\<rparr>)
   \<and> (find (\<lambda>r. slug r = k) (rows db) = Some c \<longrightarrow>
        (\<exists>pre post. rows db = pre @ c # post \<and> (\<forall>r\<in>set pre. slug r \<noteq> k) \<and> slug c = k
           \<and> save_comic_metadata True now m k db
               = \<lparr>rows = pre @ c\<lparr>updated_on := now\<rparr> # post, next_id = next_id db\<rparr>))"
proof (intro conjI impI)
  assume "find (\<lambda>r. slug r = k) (rows db) = None \<and> list_all (\<lambda>x. m x \<noteq> None) meta_keys"
  then show "save_comic_metadata True now m k db =
        \<lparr>rows = rows db @
           [\<lparr>comic_id = next_id db,
             title = the (m ''title''), author = the (m ''author''), type = the (m ''type''),
             status = the (m ''status''), release = the (m ''release''), updated_on = now,
             genres = the (m ''genres''), synopsis = the (m ''synopsis''),
             rating = the (m ''rating''), cover_image_url = the (m ''cover_image_url''),
             slug = k\<rparr>],
         next_id = Suc (next_id db)\<rparr>"
    by (simp add: save_comic_metadata_def new_comic_def)
next
  assume f: "find (\<lambda>r. slug r = k) (rows db) = Some c"
  from touch_first_split [OF f, of now] obtain pre post where
    p: "rows db = pre @ c # post" "\<forall>r\<in>set pre. slug r \<noteq> k" "slug c = k"
       "touch_first k now (rows db) = pre @ c\<lparr>updated_on := now\<rparr> # post"
    by blast
  have "save_comic_metadata True now m k db
          = \<lparr>rows = pre @ c\<lparr>updated_on := now\<rparr> # post, next_id = next_id db\<rparr>"
    using f p(4) by (cases db) (simp add: save_comic_metadata_def)
  then show "\<exists>pre post. rows db = pre @ c # post \<and> (\<forall>r\<in>set pre. slug r \<noteq> k) \<and> slug c = k
           \<and> save_comic_metadata True now m k db
               = \<lparr>rows = pre @ c\<lparr>updated_on := now\<rparr> # post, next_id = next_id db\<rparr>"
    using p by blast
qed

text \<open>
  The theorem at an empty table, and then at the table with that one row and metadata
  with another title and status: only the time changes.
\<close>

theorem save_comic_metadata_upsert_witness:
  "save_comic_metadata True 100
     [''title'' \<mapsto> Str ''Alpha'', ''author'' \<mapsto> Str ''A. Writer'', ''type'' \<mapsto> Str ''manga'',
      ''status'' \<mapsto> Str ''ongoing'', ''release'' \<mapsto> Str ''2020'',
      ''genres'' \<mapsto> StrList [''Action''], ''synopsis'' \<mapsto> Str ''A story'',
      ''rating'' \<mapsto> Str ''8.1'', ''cover_image_url'' \<mapsto> Str ''https://res.example/cover'',
      ''slug'' \<mapsto> Str ''alpha'']
     ''alpha'' \<lparr>rows = [], next_id = 1\<rparr>
   = \<lparr>rows = [\<lparr>comic_id = 1, title = Str ''Alpha'', author = Str ''A. Writer'',
               type = Str ''manga'', status = Str ''ongoing'', release = Str ''2020'',
               updated_on = 100, genres = StrList [''Action''], synopsis = Str ''A story'',
               rating = Str ''8.1'', cover_image_url = Str ''https://res.example/cover'',
               slug = ''alpha''\<rparr>],
      next_id = 2\<rparr>
   \<and> save_comic_metadata True 200
       [''title'' \<mapsto> Str ''Alpha (new)'', ''status'' \<mapsto> Str ''completed'']
       ''alpha''
       \<lparr>rows = [\<lparr>comic_id = 1, title = Str ''Alpha'', author = Str ''A. Writer'',
                 type = Str ''manga'', status = Str ''ongoing'', release = Str ''2020'',
                 updated_on = 100, genres = StrList [''Action''], synopsis = Str ''A story'',
                 rating = Str ''8.1'', cover_image_url = Str ''https://res.example/cover'',
                 slug = ''alpha''\<rparr>],
        next_id = 2\<rparr>
     = \<lparr>rows = [\<lparr>comic_id = 1, title = Str ''Alpha'', author = Str ''A. Writer'',
                 type = Str ''manga'', status = Str ''ongoing'', release = Str ''2020'',
                 updated_on = 200, genres = StrList [''Action''], synopsis = Str ''A story'',
                 rating = Str ''8.1'', cover_image_url = Str ''https://res.example/cover'',
                 slug = ''alpha''\<rparr>],
        next_id = 2\<rparr>"
proof -
  let ?m = "[''title'' \<mapsto> Str ''Alpha'', ''author'' \<mapsto> Str ''A. Writer'', ''type'' \<mapsto> Str ''manga'',
      ''status'' \<mapsto> Str ''ongoing'', ''release'' \<mapsto> Str ''2020'',
      ''genres'' \<mapsto> StrList [''Action''], ''synopsis'' \<mapsto> Str ''A story'',
      ''rating'' \<mapsto> Str ''8.1'', ''cover_image_url'' \<mapsto> Str ''https://res.example/cover'',
      ''slug'' \<mapsto> Str ''alpha'']"
  let ?row = "\<lparr>comic_id = 1, title = Str ''Alpha'', author = Str ''A. Writer'',
               type = Str ''manga'', status = Str ''ongoing'', release = Str ''2020'',
               updated_on = 100, genres = StrList [''Action''], synopsis = Str ''A story'',
               rating = Str ''8.1'', cover_image_url = Str ''https://res.example/cover'',
               slug = ''alpha''\<rparr>"
  have 1: "find (\<lambda>r. slug r = ''alpha'') (rows \<lparr>rows = [], next_id = 1\<rparr>) = None
           \<and> list_all (\<lambda>x. ?m x \<noteq> None) meta_keys"
    by (simp add: meta_keys_def)
  have 2: "find (\<lambda>r. slug r = ''alpha'') (rows \<lparr>rows = [?row], next_id = 2\<rparr>) = Some ?row"
    by simp
  from save_comic_metadata_upsert [of "''alpha''" "\<lparr>rows = [], next_id = 1\<rparr>" ?m 100] 1
  have a: "save_comic_metadata True 100 ?m ''alpha'' \<lparr>rows = [], next_id = 1\<rparr>
           = \<lparr>rows = [?row], next_id = 2\<rparr>"
    by simp
  from save_comic_metadata_upsert
    [of "''alpha''" "\<lparr>rows = [?row], next_id = 2\<rparr>"
        "[''title'' \<mapsto> Str ''Alpha (new)'', ''status'' \<mapsto> Str ''completed'']" 200 ?row] 2
  have b: "save_comic_metadata True 200
       [''title'' \<mapsto> Str ''Alpha (new)'', ''status'' \<mapsto> Str ''completed''] ''alpha''
       \<lparr>rows = [?row], next_id = 2\<rparr>
     = \<lparr>rows = [?row\<lparr>updated_on := 200\<rparr>], next_id = 2\<rparr>"
    by (auto simp: Cons_eq_append_conv)
  from a b show ?thesis by simp
qed

section \<open>Floats from decimal text\<close>

lemma bit_length_0 [simp]: "bit_length 0 = 0"
  by (simp add: bit_length.simps)

lemma bit_length_Suc_0 [simp]: "bit_length (Suc 0) = 1"
  by (simp add: bit_length.simps [of "Suc 0"])

lemma bit_length_1 [simp]: "bit_length 1 = 1"
  by (simp add: bit_length.simps [of 1])

lemma bit_length_Bit0 [simp]:
  "bit_length (numeral (Num.Bit0 k)) = Suc (bit_length (numeral k))"
  by (subst bit_length.simps) simp

lemma bit_length_Bit1 [simp]:
  "bit_length (numeral (Num.Bit1 k)) = Suc (bit_length (numeral k))"
  by (subst bit_length.simps) simp

lemma bit_length_bounds:
  "0 < n \<Longrightarrow> 2 ^ (bit_length n - 1) \<le> n \<and> n < 2 ^ bit_length n"
proof (induction n rule: bit_length.induct)
  case (1 n)
  show ?case
  proof (cases "n div 2 = 0")
    case True
    then have "n = 1" using "1.prems" by (cases n) auto
    then show ?thesis by simp
  next
    case False
    then have pos: "0 < n div 2" by simp
    have "0 < bit_length (n div 2)"
      using pos by (subst bit_length.simps) simp
    then obtain j where j: "bit_length (n div 2) = Suc j"
      by (cases "bit_length (n div 2)") auto
    from "1.IH" [OF _ pos] "1.prems" j
    have ih: "2 ^ j \<le> n div 2" "n div 2 < 2 ^ Suc j"
      by auto
    have bl: "bit_length n = Suc (Suc j)"
      using "1.prems" j by (subst bit_length.simps) simp
    have "2 * 2 ^ j \<le> n" using ih(1) by linarith
    moreover have "n < 2 * 2 ^ Suc j" using ih(2) by linarith
    ultimately show ?thesis using bl by simp
  qed
qed

lemma bit_length_pos: "0 < n \<Longrightarrow> 0 < bit_length n"
  by (subst bit_length.simps) simp

lemma bit_length_le: "n < 2 ^ j \<Longrightarrow> bit_length n \<le> j"
proof (rule ccontr)
  assume n: "n < 2 ^ j" and "\<not> bit_length n \<le> j"
  then have j: "j \<le> bit_length n - 1" by simp
  then have "0 < n" using \<open>\<not> bit_length n \<le> j\<close> by (cases "n = 0") auto
  from bit_length_bounds [OF this] have "2 ^ (bit_length n - 1) \<le> n" by simp
  moreover have "(2::nat) ^ j \<le> 2 ^ (bit_length n - 1)" using j by (simp add: power_increasing)
  ultimately show False using n by linarith
qed

lemma round_half_even_1 [simp]: "round_half_even a 1 = a" "round_half_even a (Suc 0) = a"
  by (simp_all add: round_half_even_def)

lemma ordinary_b64_round: "ordinary (b64_round n d)"
  by (simp add: b64_round_def ordinary_def Let_def)

lemma floor_log2_whole: "0 < n \<Longrightarrow> floor_log2 n 1 = int (bit_length n) - 1"
  using bit_length_bounds [of n] bit_length_pos [of n]
  by (simp add: floor_log2_def Let_def nat_diff_distrib)

lemma b64_round_whole:
  assumes "n < 2 ^ 53"
  shows "b64_round n 1 = Fin (of_nat n)"
proof (cases "n = 0")
  case True
  then show ?thesis by (simp add: b64_round_def)
next
  case False
  then have pos: "0 < n" by simp
  let ?b = "bit_length n"
  have b: "0 < ?b" "?b \<le> 53"
    using bit_length_pos [OF pos] bit_length_le [OF assms] by auto
  have fl: "floor_log2 n 1 = int ?b - 1" by (rule floor_log2_whole [OF pos])
  have "max (floor_log2 n 1 - 52) (- 1074) = int ?b - 53"
    using b fl by simp
  then have s: "max (floor_log2 n (Suc 0) - 52) (- 1074) = int ?b - 53"
    by simp
  show ?thesis
  proof (cases "?b = 53")
    case True
    then show ?thesis
      using False s by (simp add: b64_round_def Let_def)
  next
    case False
    then have lt: "?b < 53" using b by simp
    let ?k = "53 - ?b"
    have k: "nat (- (int ?b - 53)) = ?k" "nat (53 - int ?b) = ?k" using lt by simp_all
    have "n * 2 ^ ?k < 2 ^ ?b * 2 ^ ?k"
      using bit_length_bounds [OF pos] by simp
    also have "\<dots> = 2 ^ 53" using lt by (simp flip: power_add)
    finally have "bit_length (n * 2 ^ ?k) \<le> 53" by (rule bit_length_le)
    then have no: "\<not> 1024 < (int ?b - 53) + int (bit_length (n * 2 ^ ?k))" using b by simp
    have neg: "\<not> 0 \<le> int ?b - 53" using lt by simp
    show ?thesis
      using \<open>n \<noteq> 0\<close> no neg
      by (simp add: b64_round_def Let_def s k)
  qed
qed

lemma test_iff:
  assumes "0 < d"
  shows "(if 0 \<le> e0 then d * 2 ^ nat e0 \<le> n else d \<le> n * 2 ^ nat (- e0))
         \<longleftrightarrow> (2::rat) powi e0 \<le> of_nat n / of_nat d"
proof (cases "0 \<le> e0")
  case True
  then obtain k where k: "e0 = int k" by (metis nonneg_int_cases)
  have "(d * 2 ^ k \<le> n) = ((of_nat (d * 2 ^ k) :: rat) \<le> of_nat n)"
    by (simp only: of_nat_le_iff)
  also have "\<dots> = ((2::rat) ^ k \<le> of_nat n / of_nat d)"
    using assms by (simp add: field_simps)
  finally show ?thesis using k by simp
next
  case False
  then obtain k where k: "e0 = - int k" by (metis int_cases2 of_nat_0_le_iff)
  have "(d \<le> n * 2 ^ k) = ((of_nat d :: rat) \<le> of_nat (n * 2 ^ k))"
    by (simp only: of_nat_le_iff)
  also have "\<dots> = (inverse ((2::rat) ^ k) \<le> of_nat n / of_nat d)"
    using assms by (simp add: field_simps)
  finally show ?thesis using k False by (simp add: power_int_minus)
qed


lemma bit_length_powi:
  assumes "0 < n"
  shows "(2::rat) powi (int (bit_length n) - 1) \<le> of_nat n"
    and "(of_nat n :: rat) < 2 powi (int (bit_length n))"
proof -
  from bit_length_pos [OF assms] obtain j where j: "bit_length n = Suc j"
    by (cases "bit_length n") auto
  from bit_length_bounds [OF assms] j
  have b: "2 ^ j \<le> n" "n < 2 ^ Suc j" by simp_all
  have "(of_nat (2 ^ j) :: rat) \<le> of_nat n"
    using b(1) by (simp only: of_nat_le_iff)
  then have "(2::rat) ^ j \<le> of_nat n" by simp
  moreover have "(2::rat) powi (int (Suc j) - 1) = 2 ^ j"
    by (simp add: power_int_def)
  ultimately show "(2::rat) powi (int (bit_length n) - 1) \<le> of_nat n"
    by (simp only: j)
  have "(of_nat n :: rat) < of_nat (2 ^ Suc j)"
    using b(2) by (simp only: of_nat_less_iff)
  then have "(of_nat n :: rat) < 2 ^ Suc j" by simp
  moreover have "(2::rat) powi (int (Suc j)) = 2 ^ Suc j"
    by (simp only: power_int_of_nat)
  ultimately show "(of_nat n :: rat) < 2 powi (int (bit_length n))"
    by (simp only: j)
qed

lemma floor_log2_bounds:
  assumes "0 < n" "0 < d"
  shows "(2::rat) powi (floor_log2 n d) \<le> of_nat n / of_nat d"
    and "(of_nat n / of_nat d :: rat) < 2 powi (floor_log2 n d + 1)"
proof -
  let ?q = "of_nat n / of_nat d :: rat"
  let ?bn = "int (bit_length n)" and ?bd = "int (bit_length d)"
  let ?e0 = "?bn - ?bd"
  have dp: "(0::rat) < of_nat d" using assms by simp
  have t: "(if 0 \<le> ?e0 then d * 2 ^ nat ?e0 \<le> n else d \<le> n * 2 ^ nat (- ?e0))
         \<longleftrightarrow> (2::rat) powi ?e0 \<le> ?q"
    by (rule test_iff [OF assms(2)])
  have np: "(0::rat) < of_nat n" using assms by simp
  note bn = bit_length_powi [OF assms(1)] and bd = bit_length_powi [OF assms(2)]
  have pp: "(0::rat) < 2 powi (?bd - 1)" "(0::rat) < 2 powi ?bd" by simp_all
  have "?q \<le> of_nat n / 2 powi (?bd - 1)"
    using bd(1) np pp(1) dp by (intro divide_left_mono) simp_all
  also have "\<dots> < 2 powi ?bn / 2 powi (?bd - 1)"
    using bn(2) pp(1) by (rule divide_strict_right_mono)
  finally have "?q < 2 powi ?bn / 2 powi (?bd - 1)" .
  moreover have "(2::rat) powi (?bn - (?bd - 1)) = 2 powi ?bn / 2 powi (?bd - 1)"
    by (rule power_int_diff) simp
  moreover have "?bn - (?bd - 1) = ?e0 + 1" by simp
  ultimately have up: "?q < 2 powi (?e0 + 1)"
    by metis
  have "(2::rat) powi (?bn - 1) / 2 powi ?bd \<le> of_nat n / 2 powi ?bd"
    using bn(1) pp(2) by (intro divide_right_mono) simp_all
  also have "\<dots> < ?q"
    using bd(2) np pp(2) dp by (intro divide_strict_left_mono) simp_all
  finally have "2 powi (?bn - 1) / 2 powi ?bd < ?q" .
  moreover have "(2::rat) powi ((?bn - 1) - ?bd) = 2 powi (?bn - 1) / 2 powi ?bd"
    by (rule power_int_diff) simp
  moreover have "(?bn - 1) - ?bd = ?e0 - 1" by simp
  ultimately have lo: "2 powi (?e0 - 1) < ?q"
    by metis
  show "(2::rat) powi (floor_log2 n d) \<le> ?q"
    using t lo by (auto simp: floor_log2_def Let_def)
  show "?q < 2 powi (floor_log2 n d + 1)"
    using t up by (auto simp: floor_log2_def Let_def)
qed


lemma powi_window_unique:
  assumes "(2::rat) powi a \<le> q" "q < 2 powi (a + 1)" "2 powi b \<le> q" "q < 2 powi (b + 1)"
  shows "a = b"
proof (rule ccontr)
  assume "a \<noteq> b"
  then consider "a + 1 \<le> b" | "b + 1 \<le> a" by linarith
  then show False
  proof cases
    case 1
    then have "(2::rat) powi (a + 1) \<le> 2 powi b" by (intro power_int_increasing) simp_all
    then show False using assms by linarith
  next
    case 2
    then have "(2::rat) powi (b + 1) \<le> 2 powi a" by (intro power_int_increasing) simp_all
    then show False using assms by linarith
  qed
qed

lemma round_half_even_exact: "0 < b \<Longrightarrow> round_half_even (M * b) b = M"
  by (simp add: round_half_even_def)

lemma b64_round_shift_up:
  assumes "n \<noteq> 0" "0 < d" "max (floor_log2 n d - 52) (- 1074) = int j"
    and "n = M * (d * 2 ^ j)" "int j + int (bit_length M) \<le> 1024"
  shows "b64_round n d = Fin (of_nat (M * 2 ^ j))"
proof -
  have "round_half_even n (d * 2 ^ j) = M"
    using assms(2,4) round_half_even_exact [of "d * 2 ^ j" M] by simp
  then show ?thesis
    using assms(1,5) by (simp add: b64_round_def Let_def assms(3))
qed

lemma b64_round_shift_down:
  assumes "n \<noteq> 0" "0 < d" "max (floor_log2 n d - 52) (- 1074) = - int j" "0 < j"
    and "n * 2 ^ j = M * d" "int (bit_length M) \<le> 1024 + int j"
  shows "b64_round n d = Fin (of_nat M / of_nat (2 ^ j))"
proof -
  have "round_half_even (n * 2 ^ j) d = M"
    using assms(2,5) round_half_even_exact [of d M] by simp
  then show ?thesis
    using assms(1,4,6) by (simp add: b64_round_def Let_def assms(3))
qed


lemma b64_round_exact:
  assumes d: "0 < d" and m: "m < 2 ^ 53" and e: "- 1074 \<le> e" "e \<le> 971"
    and q: "(of_nat n / of_nat d :: rat) = of_nat m * 2 powi e"
  shows "b64_round n d = Fin (of_nat n / of_nat d)"
proof (cases "n = 0")
  case True
  then show ?thesis by (simp add: b64_round_def)
next
  case False
  let ?q = "of_nat n / of_nat d :: rat"
  have np: "0 < n" using False by simp
  have qp: "0 < ?q" using np d by simp
  have mp: "0 < m"
  proof (rule ccontr)
    assume "\<not> 0 < m"
    then have "?q = 0" using q by simp
    then show False using qp by linarith
  qed
  let ?b = "int (bit_length m)"
  have b: "1 \<le> ?b" "?b \<le> 53"
    using bit_length_pos [OF mp] bit_length_le [OF m] by simp_all
  have pe: "(0::rat) < 2 powi e" by simp
  have lo: "(2::rat) powi (?b - 1 + e) \<le> ?q"
  proof -
    have "(2::rat) powi (?b - 1) * 2 powi e \<le> of_nat m * 2 powi e"
      using bit_length_powi(1) [OF mp] pe by (intro mult_right_mono) simp_all
    moreover have "(2::rat) powi (?b - 1 + e) = 2 powi (?b - 1) * 2 powi e"
      by (rule power_int_add) simp
    ultimately show ?thesis using q by simp
  qed
  have up: "?q < (2::rat) powi (?b - 1 + e + 1)"
  proof -
    have "of_nat m * 2 powi e < (2::rat) powi ?b * 2 powi e"
      using bit_length_powi(2) [OF mp] pe by (intro mult_strict_right_mono) simp_all
    moreover have "(2::rat) powi (?b + e) = 2 powi ?b * 2 powi e"
      by (rule power_int_add) simp
    moreover have "?b - 1 + e + 1 = ?b + e" by simp
    ultimately show ?thesis using q by simp
  qed
  have fl: "floor_log2 n d = ?b - 1 + e"
    by (rule powi_window_unique [OF floor_log2_bounds [OF np d] lo up])
  define s where "s = max (?b + e - 53) (- 1074)"
  have s: "max (floor_log2 n d - 52) (- 1074) = s"
    by (simp add: fl s_def)
  have se: "s \<le> e" "- 1074 \<le> s" using b e by (simp_all add: s_def)
  define k where "k = nat (e - s)"
  let ?M = "m * 2 ^ k"
  have ek: "e = s + int k" using se by (simp add: k_def)
  have qM: "?q = of_nat ?M * 2 powi s"
  proof -
    have "(2::rat) powi e = 2 powi s * 2 powi (int k)"
      unfolding ek by (rule power_int_add) simp
    then show ?thesis using q by simp
  qed
  have "?M < 2 ^ bit_length m * 2 ^ k"
    using bit_length_bounds [OF mp] by simp
  then have "?M < 2 ^ (bit_length m + k)" by (simp add: power_add)
  then have "bit_length ?M \<le> bit_length m + k" by (rule bit_length_le)
  then have bl: "s + int (bit_length ?M) \<le> 1024"
    using ek e b by linarith
  have dq: "(of_nat d :: rat) \<noteq> 0" using d by simp
  show ?thesis
  proof (cases "0 \<le> s")
    case True
    then obtain j where j: "s = int j" by (metis nonneg_int_cases)
    have "?q = of_nat (?M * 2 ^ j)" using qM j by simp
    then have "(of_nat n :: rat) = of_nat (?M * 2 ^ j) * of_nat d"
      using dq by (simp add: field_simps)
    then have "(of_nat n :: rat) = of_nat (?M * (d * 2 ^ j))"
      by (simp add: mult_ac)
    then have n: "n = ?M * (d * 2 ^ j)" by (simp only: of_nat_eq_iff)
    have "b64_round n d = Fin (of_nat (?M * 2 ^ j))"
      using False d s n bl unfolding j by (rule b64_round_shift_up)
    then show ?thesis using \<open>?q = of_nat (?M * 2 ^ j)\<close> by simp
  next
    case False
    then obtain j where j: "s = - int j" "0 < j"
      by (metis int_cases2 neg_0_le_iff_le not_gr_zero of_nat_0 of_nat_0_le_iff)
    have "(2::rat) powi s = inverse (2 ^ j)" using j by (simp add: power_int_minus)
    then have qj: "?q = of_nat ?M / of_nat (2 ^ j)" using qM by (simp add: field_simps)
    then have "(of_nat n :: rat) * of_nat (2 ^ j) = of_nat ?M * of_nat d"
      using dq by (simp add: field_simps)
    then have "(of_nat (n * 2 ^ j) :: rat) = of_nat (?M * d)" by simp
    then have n: "n * 2 ^ j = ?M * d" by (simp only: of_nat_eq_iff)
    have "int (bit_length ?M) \<le> 1024 + int j" using bl j by simp
    with \<open>n \<noteq> 0\<close> d s j n
    have "b64_round n d = Fin (of_nat ?M / of_nat (2 ^ j))"
      by (intro b64_round_shift_down) simp_all
    then show ?thesis using qj by simp
  qed
qed

lemma b64_round_binary64:
  assumes "0 < d" "binary64 (of_nat n / of_nat d)"
  shows "b64_round n d = Fin (of_nat n / of_nat d)"
proof -
  from assms(2) obtain m e where "m < 2 ^ 53" "- 1074 \<le> e" "e \<le> 971"
    "(of_nat n / of_nat d :: rat) = of_nat m * 2 powi e"
    unfolding binary64_def by blast
  with assms(1) show ?thesis by (intro b64_round_exact)
qed

lemma round_half_even_near:
  assumes "0 < b"
  shows "\<bar>of_nat (round_half_even a b) - (of_nat a / of_nat b :: rat)\<bar> \<le> 1 / 2"
proof -
  let ?k = "a div b" and ?r = "a mod b"
  have bp: "(0::rat) < of_nat b" using assms by simp
  have "(of_nat a :: rat) = of_nat (?k * b + ?r)" by simp
  also have "\<dots> = of_nat ?k * of_nat b + of_nat ?r" by (simp only: of_nat_add of_nat_mult)
  finally have q: "(of_nat a / of_nat b :: rat) = of_nat ?k + of_nat ?r / of_nat b"
    using bp by (simp add: field_simps)
  have r0: "(0::rat) \<le> of_nat ?r / of_nat b" by simp
  have r1: "(of_nat ?r / of_nat b :: rat) < 1" using assms bp by simp
  consider "2 * ?r < b" | "b < 2 * ?r" | "2 * ?r = b" by linarith
  then show ?thesis
  proof cases
    case 1
    then have "(of_nat (2 * ?r) :: rat) < of_nat b" by (simp only: of_nat_less_iff)
    then have "(of_nat ?r / of_nat b :: rat) < 1 / 2" using bp by (simp add: field_simps)
    moreover have "round_half_even a b = ?k" using 1 by (simp add: round_half_even_def Let_def)
    ultimately show ?thesis using q r0 by simp
  next
    case 2
    then have "(of_nat b :: rat) < of_nat (2 * ?r)" by (simp only: of_nat_less_iff)
    then have "1 / 2 < (of_nat ?r / of_nat b :: rat)" using bp by (simp add: field_simps)
    moreover have "round_half_even a b = ?k + 1" using 2 by (simp add: round_half_even_def Let_def)
    ultimately show ?thesis using q r1 by simp
  next
    case 3
    then have "(of_nat (2 * ?r) :: rat) = of_nat b" by (simp only:)
    then have h: "(of_nat ?r / of_nat b :: rat) = 1 / 2" using bp by (simp add: field_simps)
    have "round_half_even a b = ?k \<or> round_half_even a b = ?k + 1"
      using 3 by (simp add: round_half_even_def Let_def)
    then show ?thesis using q h by auto
  qed
qed

lemma round_half_even_tie:
  assumes "0 < b" "\<bar>of_nat (round_half_even a b) - (of_nat a / of_nat b :: rat)\<bar> = 1 / 2"
  shows "even (round_half_even a b)"
proof -
  let ?k = "a div b" and ?r = "a mod b"
  have bp: "(0::rat) < of_nat b" using assms by simp
  have "(of_nat a :: rat) = of_nat (?k * b + ?r)" by simp
  also have "\<dots> = of_nat ?k * of_nat b + of_nat ?r" by (simp only: of_nat_add of_nat_mult)
  finally have q: "(of_nat a / of_nat b :: rat) = of_nat ?k + of_nat ?r / of_nat b"
    using bp by (simp add: field_simps)
  have r0: "(0::rat) \<le> of_nat ?r / of_nat b" by simp
  have r1: "(of_nat ?r / of_nat b :: rat) < 1" using assms bp by simp
  consider "2 * ?r < b" | "b < 2 * ?r" | "2 * ?r = b" by linarith
  then show ?thesis
  proof cases
    case 1
    then have "(of_nat (2 * ?r) :: rat) < of_nat b" by (simp only: of_nat_less_iff)
    then have "(of_nat ?r / of_nat b :: rat) < 1 / 2" using bp by (simp add: field_simps)
    moreover have "round_half_even a b = ?k" using 1 by (simp add: round_half_even_def Let_def)
    ultimately have "\<bar>of_nat (round_half_even a b) - (of_nat a / of_nat b :: rat)\<bar> < 1 / 2"
      using q r0 by simp
    then show ?thesis using assms(2) by simp
  next
    case 2
    then have "(of_nat b :: rat) < of_nat (2 * ?r)" by (simp only: of_nat_less_iff)
    then have "1 / 2 < (of_nat ?r / of_nat b :: rat)" using bp by (simp add: field_simps)
    moreover have "round_half_even a b = ?k + 1" using 2 by (simp add: round_half_even_def Let_def)
    ultimately have "\<bar>of_nat (round_half_even a b) - (of_nat a / of_nat b :: rat)\<bar> < 1 / 2"
      using q r1 by simp
    then show ?thesis using assms(2) by simp
  next
    case 3
    then show ?thesis by (simp add: round_half_even_def Let_def)
  qed
qed

lemma whole_tie:
  assumes "\<bar>of_nat m - (t::rat)\<bar> \<le> 1 / 2" "\<bar>of_nat j - t\<bar> = \<bar>of_nat m - t\<bar>" "j \<noteq> m"
  shows "\<bar>of_nat m - t\<bar> = 1 / 2" and "\<bar>of_nat m - (of_nat j :: rat)\<bar> = 1"
proof -
  consider "m < j" | "j < m" using assms(3) by linarith
  then have "\<bar>of_nat m - t\<bar> = 1 / 2 \<and> \<bar>of_nat m - (of_nat j :: rat)\<bar> = 1"
  proof cases
    case 1
    then have "m + 1 \<le> j" by simp
    then have "(of_nat (m + 1) :: rat) \<le> of_nat j" by (simp only: of_nat_le_iff)
    then have "(of_nat m :: rat) + 1 \<le> of_nat j" by simp
    then show ?thesis using assms(1,2) by linarith
  next
    case 2
    then have "j + 1 \<le> m" by simp
    then have "(of_nat (j + 1) :: rat) \<le> of_nat m" by (simp only: of_nat_le_iff)
    then have "(of_nat j :: rat) + 1 \<le> of_nat m" by simp
    then show ?thesis using assms(1,2) by linarith
  qed
  then show "\<bar>of_nat m - t\<bar> = 1 / 2" and "\<bar>of_nat m - (of_nat j :: rat)\<bar> = 1" by simp_all
qed

lemma whole_nearest:
  assumes "\<bar>of_nat m - (t::rat)\<bar> \<le> 1 / 2"
  shows "\<bar>of_nat m - t\<bar> \<le> \<bar>of_nat j - t\<bar>"
proof -
  consider "m = j" | "m < j" | "j < m" by linarith
  then show ?thesis
  proof cases
    case 1
    then show ?thesis by simp
  next
    case 2
    then have "m + 1 \<le> j" by simp
    then have "(of_nat (m + 1) :: rat) \<le> of_nat j" by (simp only: of_nat_le_iff)
    then have "(of_nat m :: rat) + 1 \<le> of_nat j" by simp
    then show ?thesis using assms by linarith
  next
    case 3
    then have "j + 1 \<le> m" by simp
    then have "(of_nat (j + 1) :: rat) \<le> of_nat m" by (simp only: of_nat_le_iff)
    then have "(of_nat j :: rat) + 1 \<le> of_nat m" by simp
    then show ?thesis using assms by linarith
  qed
qed

lemma scaled_distance:
  assumes "(0::rat) < p"
  shows "\<bar>x * p - q\<bar> = \<bar>x - q / p\<bar> * p"
proof -
  have "x * p - q = (x - q / p) * p" using assms by (simp add: field_simps)
  then show ?thesis using assms by (simp add: abs_mult)
qed

lemma grid_nearest:
  assumes "(0::rat) < p" "\<bar>of_nat m - q / p\<bar> \<le> 1 / 2"
  shows "\<bar>of_nat m * p - q\<bar> \<le> \<bar>of_nat j * p - q\<bar>"
proof -
  have "\<bar>of_nat m - q / p\<bar> * p \<le> \<bar>of_nat j - q / p\<bar> * p"
    using whole_nearest [OF assms(2), of j] assms(1) by (intro mult_right_mono) simp_all
  then show ?thesis by (simp only: scaled_distance [OF assms(1)])
qed

lemma b64_round_form:
  assumes "0 < n" "0 < d"
  defines "s \<equiv> max (floor_log2 n d - 52) (- 1074)"
  shows "\<exists>m. \<bar>of_nat m - (of_nat n / of_nat d :: rat) / 2 powi s\<bar> \<le> 1 / 2
    \<and> (\<bar>of_nat m - (of_nat n / of_nat d :: rat) / 2 powi s\<bar> = 1 / 2 \<longrightarrow> even m)
    \<and> b64_round n d = (if 1024 < s + int (bit_length m) then PInf
                          else Fin (of_nat m * 2 powi s))"
proof (cases "0 \<le> s")
  case True
  then obtain j where j: "s = int j" by (metis nonneg_int_cases)
  let ?m = "round_half_even n (d * 2 ^ j)"
  have s': "max (floor_log2 n d - 52) (- 1074) = int j" using j by (simp add: s_def)
  have dj: "0 < d * 2 ^ j" using assms(2) by simp
  have r: "(of_nat n / of_nat (d * 2 ^ j) :: rat) = (of_nat n / of_nat d) / 2 powi s"
    by (simp add: j)
  have near: "\<bar>of_nat ?m - (of_nat n / of_nat d :: rat) / 2 powi s\<bar> \<le> 1 / 2"
    using round_half_even_near [OF dj, of n] by (simp only: r)
  have tie: "\<bar>of_nat ?m - (of_nat n / of_nat d :: rat) / 2 powi s\<bar> = 1 / 2 \<longrightarrow> even ?m"
    using round_half_even_tie [OF dj, of n] by (simp only: r) simp
  have "b64_round n d = (if 1024 < s + int (bit_length ?m) then PInf
                          else Fin (of_nat ?m * 2 powi s))"
    using assms(1) by (simp add: b64_round_def Let_def s' j)
  with near tie show ?thesis by (intro exI [of _ ?m] conjI)
next
  case False
  then obtain j where j: "s = - int j" "0 < j"
    by (metis int_cases2 neg_0_le_iff_le not_gr_zero of_nat_0 of_nat_0_le_iff)
  let ?m = "round_half_even (n * 2 ^ j) d"
  have s': "max (floor_log2 n d - 52) (- 1074) = - int j" using j by (simp add: s_def)
  have p: "(2::rat) powi s = inverse (2 ^ j)" using j by (simp add: power_int_minus)
  have r: "(of_nat (n * 2 ^ j) / of_nat d :: rat) = (of_nat n / of_nat d) / 2 powi s"
    by (simp add: p field_simps)
  have near: "\<bar>of_nat ?m - (of_nat n / of_nat d :: rat) / 2 powi s\<bar> \<le> 1 / 2"
    using round_half_even_near [OF assms(2), of "n * 2 ^ j"] by (simp only: r)
  have tie: "\<bar>of_nat ?m - (of_nat n / of_nat d :: rat) / 2 powi s\<bar> = 1 / 2 \<longrightarrow> even ?m"
    using round_half_even_tie [OF assms(2), of "n * 2 ^ j"] by (simp only: r) simp
  have "b64_round n d = (if 1024 < s + int (bit_length ?m) then PInf
                          else Fin (of_nat ?m * 2 powi s))"
    using assms(1) j(2) by (simp add: b64_round_def Let_def s' j(1) power_int_minus field_simps)
  with near tie show ?thesis by (intro exI [of _ ?m] conjI)
qed

lemma bit_length_gt: 
  assumes "2 ^ k \<le> n"
  shows "k < bit_length n"
proof (rule ccontr)
  assume "\<not> k < bit_length n"
  then have "(2::nat) ^ bit_length n \<le> 2 ^ k" by (intro power_increasing) simp_all
  moreover have "0 < n" using assms by (cases "n = 0") auto
  ultimately show False using bit_length_bounds [of n] assms by linarith
qed

lemma binary64_grid:
  assumes "binary64 y"
  shows "(\<exists>j::nat. y = of_nat j * 2 powi s) \<or> (- 1074 < s \<and> y < 2 powi (s + 52))"
proof -
  from assms obtain M :: nat and E :: int
    where M: "M < 2 ^ 53" and E: "- 1074 \<le> E" and y: "y = of_nat M * 2 powi E"
    unfolding binary64_def by blast
  show ?thesis
  proof (cases "s \<le> E")
    case True
    define k where "k = nat (E - s)"
    have Ek: "E = int k + s" using True by (simp add: k_def)
    have "(2::rat) powi E = 2 powi (int k) * 2 powi s"
      unfolding Ek by (rule power_int_add) simp
    then have "y = of_nat (M * 2 ^ k) * 2 powi s" using y by simp
    then show ?thesis by blast
  next
    case False
    then have s: "- 1074 < s" "E + 53 \<le> s + 52" using E by simp_all
    have "(of_nat M :: rat) < of_nat (2 ^ 53)" using M by (simp only: of_nat_less_iff)
    then have "(of_nat M :: rat) < 2 powi 53" by simp
    then have "y < 2 powi 53 * 2 powi E"
      unfolding y by (intro mult_strict_right_mono) simp_all
    also have "\<dots> = 2 powi (E + 53)" by (simp add: power_int_add mult.commute)
    also have "\<dots> \<le> 2 powi (s + 52)" using s(2) by (intro power_int_increasing) simp_all
    finally show ?thesis using s(1) by simp
  qed
qed

lemma binary64_below:
  assumes "binary64 y"
  shows "y \<le> (2 ^ 53 - 1) * 2 powi 971"
proof -
  from assms obtain M :: nat and E :: int
    where M: "M < 2 ^ 53" and E: "E \<le> 971" and y: "y = of_nat M * 2 powi E"
    unfolding binary64_def by blast
  have "M + 1 \<le> 2 ^ 53" using M by simp
  then have "(of_nat (M + 1) :: rat) \<le> of_nat (2 ^ 53)" by (simp only: of_nat_le_iff)
  then have m: "(of_nat M :: rat) \<le> 2 ^ 53 - 1" by simp
  have "(2::rat) powi E \<le> 2 powi 971" using E by (intro power_int_increasing) simp_all
  with m show ?thesis unfolding y by (intro mult_mono) simp_all
qed

lemma mantissa_bounds:
  assumes "(2::rat) powi e \<le> q" "q < 2 powi (e + 1)"
    and "\<bar>of_nat m - q / 2 powi s\<bar> \<le> 1 / 2"
  shows "e - 52 \<le> s \<Longrightarrow> m \<le> 2 ^ 53" and "s \<le> e - 52 \<Longrightarrow> 2 ^ 52 \<le> m"
proof -
  have p: "(0::rat) < 2 powi s" by simp
  let ?t = "q / 2 powi s"
  {
    assume s: "e - 52 \<le> s"
    have "?t < 2 powi (e + 1) / 2 powi s"
      using assms(2) p by (rule divide_strict_right_mono)
    also have "\<dots> = 2 powi (e + 1 - s)" by (rule power_int_diff [symmetric]) simp
    also have "\<dots> \<le> 2 powi 53" using s by (intro power_int_increasing) simp_all
    finally have "?t < 2 ^ 53" by simp
    with assms(3) have lt: "(of_nat m :: rat) < 2 ^ 53 + 1" by linarith
    show "m \<le> 2 ^ 53"
    proof (rule ccontr)
      assume "\<not> m \<le> 2 ^ 53"
      then have "2 ^ 53 + 1 \<le> m" by simp
      then have "(of_nat (2 ^ 53 + 1) :: rat) \<le> of_nat m" by (simp only: of_nat_le_iff)
      then show False using lt by simp
    qed
  }
  {
    assume s: "s \<le> e - 52"
    have "(2::rat) powi 52 \<le> 2 powi (e - s)" using s by (intro power_int_increasing) simp_all
    also have "\<dots> = 2 powi e / 2 powi s" by (rule power_int_diff) simp
    also have "\<dots> \<le> ?t" using assms(1) p by (intro divide_right_mono) simp_all
    finally have "2 ^ 52 \<le> ?t" by simp
    with assms(3) have gt: "2 ^ 52 - 1 < (of_nat m :: rat)" by linarith
    show "2 ^ 52 \<le> m"
    proof (rule ccontr)
      assume "\<not> 2 ^ 52 \<le> m"
      then have "m + 1 \<le> 2 ^ 52" by simp
      then have "(of_nat (m + 1) :: rat) \<le> of_nat (2 ^ 52)" by (simp only: of_nat_le_iff)
      then show False using gt by simp
    qed
  }
qed

lemma overflow_threshold:
  "((2::rat) ^ 53 - 1 / 2) * 2 powi 971 = (2 ^ 54 - 1) * 2 powi 970"
  "(2::rat) powi 1023 \<le> (2 ^ 54 - 1) * 2 powi 970"
  "((2::rat) ^ 54 - 1) * 2 powi 970 \<le> 2 powi 1024"
  "((2::rat) ^ 53 - 1) * 2 powi 971 < (2 ^ 54 - 1) * 2 powi 970"
  by simp_all

lemma b64_round_nearest:
  assumes d: "0 < d"
  shows "nearest_binary64 (of_nat n / of_nat d) (b64_round n d)"
proof (cases "n = 0")
  case True
  have "binary64 0" unfolding binary64_def by (intro exI [of _ 0]) simp
  then show ?thesis using True by (simp add: b64_round_def nearest_binary64_def)
next
  case False
  then have np: "0 < n" by simp
  let ?q = "of_nat n / of_nat d :: rat"
  let ?thr = "(2 ^ 54 - 1) * 2 powi 970 :: rat"
  define e where "e = floor_log2 n d"
  define s where "s = max (e - 52) (- 1074)"
  let ?p = "(2::rat) powi s"
  have p: "0 < ?p" by simp
  have q: "2 powi e \<le> ?q" "?q < 2 powi (e + 1)"
    unfolding e_def by (rule floor_log2_bounds [OF np d])+
  from b64_round_form [OF np d, folded e_def, folded s_def] obtain m
    where near: "\<bar>of_nat m - ?q / ?p\<bar> \<le> 1 / 2"
      and tie: "\<bar>of_nat m - ?q / ?p\<bar> = 1 / 2 \<longrightarrow> even m"
      and val: "b64_round n d = (if 1024 < s + int (bit_length m) then PInf
                                 else Fin (of_nat m * ?p))"
    by (elim exE conjE)
  have s: "e - 52 \<le> s" "- 1074 \<le> s" by (simp_all add: s_def)
  have m53: "m \<le> 2 ^ 53" using q near s(1) by (rule mantissa_bounds(1))
  have m52: "2 ^ 52 \<le> m" if "- 1074 < s"
  proof -
    have "s \<le> e - 52" using that by (simp add: s_def max_def split: if_splits)
    with q near show ?thesis by (rule mantissa_bounds(2))
  qed
  show ?thesis
  proof (cases "1024 < s + int (bit_length m)")
    case False
    let ?v = "of_nat m * ?p"
    have v: "b64_round n d = Fin ?v" using val False by simp
    have bin: "binary64 ?v"
    proof (cases "m = 2 ^ 53")
      case True
      then have "53 < bit_length m" by (intro bit_length_gt) simp
      then have "s + 1 \<le> 971" using False by simp
      moreover have "(2::rat) powi (s + 1) = 2 powi s * 2" by (simp add: power_int_add)
      then have "?v = of_nat (2 ^ 52) * 2 powi (s + 1)" using True by simp
      ultimately have "(2::nat) ^ 52 < 2 ^ 53 \<and> - 1074 \<le> s + 1 \<and> s + 1 \<le> 971
          \<and> ?v = of_nat (2 ^ 52) * 2 powi (s + 1)"
        using s(2) by simp
      then show ?thesis unfolding binary64_def by blast
    next
      case ne: False
      then have m: "m < 2 ^ 53" using m53 by simp
      have "s \<le> 971"
      proof (cases "- 1074 < s")
        case True
        from m52 [OF this] have "52 < bit_length m" by (rule bit_length_gt)
        then show ?thesis using False by simp
      next
        case False
        then show ?thesis by simp
      qed
      then have "m < 2 ^ 53 \<and> - 1074 \<le> s \<and> s \<le> 971 \<and> ?v = of_nat m * 2 powi s"
        using s(2) m by simp
      then show ?thesis unfolding binary64_def by blast
    qed
    have below: "?q < ?thr"
    proof (rule ccontr)
      assume "\<not> ?q < ?thr"
      then have big: "?thr \<le> ?q" by simp
      have "1023 \<le> e"
      proof (rule ccontr)
        assume "\<not> 1023 \<le> e"
        then have "(2::rat) powi (e + 1) \<le> 2 powi 1023" by (intro power_int_increasing) simp_all
        then show False using q(2) big overflow_threshold(2) by linarith
      qed
      then have s1: "- 1074 < s" "971 \<le> s" using s(1) by simp_all
      from m52 [OF s1(1)] have "52 < bit_length m" by (rule bit_length_gt)
      then have s971: "s = 971" using False s1(2) by simp
      have m': "m < 2 ^ 53"
      proof (rule ccontr)
        assume "\<not> m < 2 ^ 53"
        then have "2 ^ 53 \<le> m" by simp
        then have "53 < bit_length m" by (rule bit_length_gt)
        then show False using False s971 by simp
      qed
      have "((2::rat) ^ 53 - 1 / 2) * ?p \<le> ?q"
        using big overflow_threshold(1) by (simp only: s971)
      then have t: "(2::rat) ^ 53 - 1 / 2 \<le> ?q / ?p" by (simp only: pos_le_divide_eq [OF p])
      have "m + 1 \<le> 2 ^ 53" using m' by simp
      then have "(of_nat (m + 1) :: rat) \<le> of_nat (2 ^ 53)" by (simp only: of_nat_le_iff)
      then have mle: "(of_nat m :: rat) \<le> 2 ^ 53 - 1" by simp
      with t near have "\<bar>of_nat m - ?q / ?p\<bar> = 1 / 2" "(of_nat m :: rat) = 2 ^ 53 - 1"
        by linarith+
      then have "even m" "(of_nat m :: rat) = of_nat (2 ^ 53 - 1)" using tie by simp_all
      then have "even m" "m = 2 ^ 53 - 1" by (simp_all only: of_nat_eq_iff)
      then show False by simp
    qed
    have nearest: "\<bar>?v - ?q\<bar> \<le> \<bar>y - ?q\<bar>"
      and ties: "y \<noteq> ?v \<and> \<bar>y - ?q\<bar> = \<bar>?v - ?q\<bar> \<longrightarrow> (\<exists>k::nat. ?v = of_nat (2 * k) * \<bar>?v - y\<bar>)"
      if y: "binary64 y" for y
    proof -
      from binary64_grid [OF y, of s]
      consider j :: nat where "y = of_nat j * ?p" | "- 1074 < s" "y < 2 powi (s + 52)"
        by blast
      then have "\<bar>?v - ?q\<bar> \<le> \<bar>y - ?q\<bar>
        \<and> (y \<noteq> ?v \<and> \<bar>y - ?q\<bar> = \<bar>?v - ?q\<bar> \<longrightarrow> (\<exists>k::nat. ?v = of_nat (2 * k) * \<bar>?v - y\<bar>))"
      proof cases
        case 1
        have a: "\<bar>?v - ?q\<bar> \<le> \<bar>y - ?q\<bar>"
          using grid_nearest [OF p near, of j] 1 by simp
        have b: "\<exists>k::nat. ?v = of_nat (2 * k) * \<bar>?v - y\<bar>"
          if "y \<noteq> ?v" "\<bar>y - ?q\<bar> = \<bar>?v - ?q\<bar>"
        proof -
          have jm: "j \<noteq> m" using that(1) 1 by auto
          have "\<bar>of_nat j - ?q / ?p\<bar> * ?p = \<bar>of_nat m - ?q / ?p\<bar> * ?p"
            using that(2) unfolding 1 by (simp only: scaled_distance [OF p])
          then have eq: "\<bar>of_nat j - ?q / ?p\<bar> = \<bar>of_nat m - ?q / ?p\<bar>"
            using p by simp
          from whole_tie [OF near eq jm]
          have h: "\<bar>of_nat m - ?q / ?p\<bar> = 1 / 2" "\<bar>of_nat m - (of_nat j :: rat)\<bar> = 1"
            by simp_all
          from h(1) tie obtain k where k: "m = 2 * k" by (auto elim: evenE)
          have "?v - y = (of_nat m - of_nat j) * ?p" unfolding 1 by (simp add: algebra_simps)
          then have "\<bar>?v - y\<bar> = \<bar>of_nat m - (of_nat j :: rat)\<bar> * ?p"
            using p by (simp add: abs_mult)
          then have "\<bar>?v - y\<bar> = ?p" using h(2) by simp
          then have "?v = of_nat (2 * k) * \<bar>?v - y\<bar>" using k by simp
          then show ?thesis by blast
        qed
        from a b show ?thesis by blast
      next
        case 2
        then have se: "s + 52 = e" by (simp add: s_def max_def split: if_splits)
        have "(2::rat) powi (s + 52) = 2 powi s * 2 powi 52"
          by (rule power_int_add) simp
        then have "(2::rat) powi e = of_nat (2 ^ 52) * ?p" using se by simp
        with grid_nearest [OF p near, of "2 ^ 52"]
        have "\<bar>?v - ?q\<bar> \<le> \<bar>2 powi e - ?q\<bar>" by (simp only:)
        moreover have "y < 2 powi e" using 2(2) se by simp
        ultimately have "\<bar>?v - ?q\<bar> < \<bar>y - ?q\<bar>" using q(1) by linarith
        then show ?thesis by simp
      qed
      then show "\<bar>?v - ?q\<bar> \<le> \<bar>y - ?q\<bar>"
        and "y \<noteq> ?v \<and> \<bar>y - ?q\<bar> = \<bar>?v - ?q\<bar> \<longrightarrow> (\<exists>k::nat. ?v = of_nat (2 * k) * \<bar>?v - y\<bar>)"
        by blast+
    qed
    with bin below show ?thesis unfolding v nearest_binary64_def by simp
  next
    case True
    have v: "b64_round n d = PInf" using val True by simp
    have "m < 2 ^ 54" using m53 by simp
    then have "bit_length m \<le> 54" by (rule bit_length_le)
    then have s971: "971 \<le> s" using True by simp
    then have se: "s + 52 = e" by (simp add: s_def max_def split: if_splits)
    have big: "?thr \<le> ?q"
    proof (cases "s = 971")
      case s9: True
      have "0 < m" using m52 s971 by (cases "m = 0") auto
      have "54 \<le> bit_length m" using True s9 by simp
      then have "(2::nat) ^ 53 \<le> 2 ^ (bit_length m - 1)" by (intro power_increasing) simp_all
      then have "2 ^ 53 \<le> m" using bit_length_bounds [OF \<open>0 < m\<close>] by linarith
      then have "(of_nat (2 ^ 53) :: rat) \<le> of_nat m" by (simp only: of_nat_le_iff)
      then have "(2::rat) ^ 53 \<le> of_nat m" by simp
      with near have "2 ^ 53 - 1 / 2 \<le> ?q / ?p" by linarith
      then have "(2 ^ 53 - 1 / 2) * ?p \<le> ?q" by (simp only: pos_le_divide_eq [OF p])
      then show ?thesis using overflow_threshold(1) by (simp only: s9)
    next
      case False
      then have "1024 \<le> e" using s971 se by simp
      then have "(2::rat) powi 1024 \<le> 2 powi e" by (intro power_int_increasing) simp_all
      then show ?thesis using q(1) overflow_threshold(3) by linarith
    qed
    with v show ?thesis by (simp add: nearest_binary64_def)
  qed
qed

lemma nearest_binary64_exact:
  assumes "nearest_binary64 q x"
  shows "binary64 q \<longleftrightarrow> x = Fin q"
proof (cases x)
  case (Fin v)
  with assms have v: "binary64 v" "\<And>y. binary64 y \<Longrightarrow> \<bar>v - q\<bar> \<le> \<bar>y - q\<bar>"
    by (simp_all add: nearest_binary64_def)
  show ?thesis
  proof
    assume "binary64 q"
    from v(2) [OF this] have "v = q" by simp
    then show "x = Fin q" using Fin by simp
  next
    assume "x = Fin q"
    then show "binary64 q" using Fin v(1) by simp
  qed
next
  case PInf
  with assms have "(2 ^ 54 - 1) * 2 powi 970 \<le> q" by (simp add: nearest_binary64_def)
  then have "\<not> binary64 q" using binary64_below [of q] overflow_threshold(4) by linarith
  then show ?thesis using PInf by simp
next
  case NInf
  with assms show ?thesis by (simp add: nearest_binary64_def)
next
  case NaN
  with assms show ?thesis by (simp add: nearest_binary64_def)
qed

lemma foldl_digits:
  "foldl (\<lambda>a c. 10 * a + digit_value c) a m
     = a * 10 ^ length m + foldl (\<lambda>a c. 10 * a + digit_value c) 0 m"
proof (induction m arbitrary: a)
  case Nil
  then show ?case by simp
next
  case (Cons c m)
  from Cons [of "10 * a + digit_value c"] Cons [of "digit_value c"]
  show ?case by (simp add: algebra_simps)
qed

lemma digits_value_append:
  "digits_value (n @ m) = digits_value n * 10 ^ length m + digits_value m"
  unfolding digits_value_def by (simp add: foldl_digits [of "foldl _ _ n"])

lemma decimal_value_ratio:
  "(of_nat (digits_value (n @ m)) / of_nat (10 ^ length m) :: rat) = decimal_value n m"
  by (simp add: digits_value_append decimal_value_def field_simps)

lemma py_float_examples:
  "py_float ''2'' = Fin 2" "py_float ''2.5'' = Fin (5 / 2)" "py_float ''12.50'' = Fin (25 / 2)"
  by (simp_all add: py_float_def is_digit_def digits_value_def digit_value_def b64_round_def
      floor_log2_def round_half_even_def Let_def)

section \<open>The chapter list\<close>

lemma takeWhile_digits:
  "digits ds \<Longrightarrow> number_ends rest \<Longrightarrow> takeWhile is_digit (ds @ rest) = ds"
  by (cases rest) (auto simp: digits_def number_ends_def list_all_iff)

lemma dropWhile_digits:
  "digits ds \<Longrightarrow> number_ends rest \<Longrightarrow> dropWhile is_digit (ds @ rest) = rest"
  by (cases rest) (auto simp: digits_def number_ends_def list_all_iff)

lemma not_digit_dot [simp]: "\<not> is_digit CHR ''.''"
  by (simp add: is_digit_def)

lemma chapter_group_whole:
  assumes "digits n" "number_ends rest"
    and "\<not> (\<exists>r. rest = CHR ''.'' # r \<and> r \<noteq> [] \<and> is_digit (hd r))"
  shows "chapter_group (''Chapter '' @ n @ rest) = Some n"
proof -
  have t: "takeWhile is_digit (n @ rest) = n" "dropWhile is_digit (n @ rest) = rest"
    using assms by (simp_all add: takeWhile_digits dropWhile_digits)
  have nn: "n \<noteq> []" using assms(1) by (simp add: digits_def)
  have "rest \<noteq> [] \<and> hd rest = CHR ''.'' \<Longrightarrow> takeWhile is_digit (tl rest) = []"
    using assms(3) by (cases rest; cases "tl rest") auto
  then show ?thesis
    using t nn by (auto simp: chapter_group_def Let_def)
qed

lemma chapter_group_fraction:
  assumes "digits n" "digits m" "number_ends rest"
  shows "chapter_group (''Chapter '' @ n @ ''.'' @ m @ rest) = Some (n @ ''.'' @ m)"
proof -
  have e: "number_ends (''.'' @ m @ rest)" by (simp add: number_ends_def)
  have t: "takeWhile is_digit (n @ ''.'' @ m @ rest) = n"
    "dropWhile is_digit (n @ ''.'' @ m @ rest) = ''.'' @ m @ rest"
    using assms(1) e by (simp_all only: takeWhile_digits dropWhile_digits)
  have "takeWhile is_digit (m @ rest) = m"
    using assms by (simp add: takeWhile_digits)
  moreover have "n \<noteq> []" "m \<noteq> []" using assms by (simp_all add: digits_def)
  ultimately show ?thesis
    using t by (simp add: chapter_group_def Let_def)
qed

lemma chapter_search_start:
  "chapter_group t = Some g \<Longrightarrow> chapter_search t = Some g"
  by (cases t) (simp_all add: chapter_group_def)

lemma py_float_whole:
  assumes "digits n"
  shows "py_float n = b64_round (digits_value n) 1"
proof -
  have eq: "takeWhile is_digit n = n"
    using assms by (simp add: digits_def list_all_iff)
  show ?thesis by (simp add: py_float_def Let_def eq)
qed

lemma py_float_fraction:
  assumes "digits n" "digits m"
  shows "py_float (n @ ''.'' @ m) = b64_round (digits_value (n @ m)) (10 ^ length m)"
proof -
  have "number_ends (''.'' @ m)" by (simp add: number_ends_def)
  from takeWhile_digits [OF assms(1) this]
  have eq: "takeWhile is_digit (n @ CHR ''.'' # m) = n" by simp
  show ?thesis
    by (simp add: py_float_def Let_def eq)
qed

lemma py_float_whole_nearest:
  assumes "digits n"
  shows "nearest_binary64 (of_nat (digits_value n)) (py_float n)"
  using b64_round_nearest [of 1 "digits_value n"] py_float_whole [OF assms] by simp

lemma py_float_fraction_nearest:
  assumes "digits n" "digits m"
  shows "nearest_binary64 (decimal_value n m) (py_float (n @ ''.'' @ m))"
  using b64_round_nearest [of "10 ^ length m" "digits_value (n @ m)"]
    py_float_fraction [OF assms]
  by (simp only: decimal_value_ratio) simp

lemma ordinary_py_float: "ordinary (py_float t)"
  by (simp add: py_float_def Let_def ordinary_b64_round)

lemma py_le_total: "ordinary x \<Longrightarrow> ordinary y \<Longrightarrow> \<not> py_lt y x \<Longrightarrow> py_le x y"
  by (cases x; cases y) (auto simp: ordinary_def py_le_def)

lemma py_lt_le: "ordinary x \<Longrightarrow> ordinary y \<Longrightarrow> py_lt y x \<Longrightarrow> py_le y x"
  by (cases x; cases y) (auto simp: ordinary_def py_le_def)

lemma py_le_trans: "py_le x y \<Longrightarrow> py_le y z \<Longrightarrow> py_le x z"
  by (cases x; cases y; cases z) (auto simp: py_le_def)

lemma set_insort_number: "set (insort_number x ys) = insert x (set ys)"
  by (induction ys) auto

lemma mset_insort_number: "mset (insort_number x ys) = add_mset x (mset ys)"
  by (induction ys) auto

lemma sorted_insort_number:
  assumes "ordinary (number x)" "\<forall>y\<in>set ys. ordinary (number y)"
    and "sorted_wrt (\<lambda>a b. py_le (number a) (number b)) ys"
  shows "sorted_wrt (\<lambda>a b. py_le (number a) (number b)) (insort_number x ys)"
  using assms(2,3)
proof (induction ys)
  case Nil
  then show ?case by simp
next
  case (Cons y ys)
  show ?case
  proof (cases "py_lt (number y) (number x)")
    case True
    then have "py_le (number y) (number x)"
      using assms(1) Cons.prems(1) by (simp add: py_lt_le)
    then show ?thesis
      using True Cons by (auto simp: set_insort_number)
  next
    case False
    then have xy: "py_le (number x) (number y)"
      using assms(1) Cons.prems(1) by (simp add: py_le_total)
    have "\<forall>z\<in>set ys. py_le (number x) (number z)"
      using xy Cons.prems(2) by (auto intro: py_le_trans)
    then show ?thesis
      using False xy Cons.prems(2) by simp
  qed
qed

lemma sorted_by_number_sorted:
  "\<forall>y\<in>set ys. ordinary (number y) \<Longrightarrow>
   sorted_wrt (\<lambda>a b. py_le (number a) (number b)) (sorted_by_number ys)
   \<and> set (sorted_by_number ys) = set ys"
  unfolding sorted_by_number_def
proof (induction ys)
  case Nil
  then show ?case by simp
next
  case (Cons y ys)
  then show ?case
    by (simp add: sorted_insort_number set_insort_number)
qed

lemma mset_sorted_by_number: "mset (sorted_by_number ys) = mset ys"
  unfolding sorted_by_number_def by (induction ys) (simp_all add: mset_insort_number)

lemma collect_chapters_Inr:
  "collect_chapters ls acc = Inr chs \<Longrightarrow> chs = acc @ map entry_of (filter matches ls)
     \<and> (\<forall>l\<in>set ls. matches l \<longrightarrow> href l \<noteq> None)"
proof (induction ls arbitrary: acc)
  case Nil
  then show ?case by simp
next
  case (Cons l ls)
  show ?case
  proof (cases "chapter_search (chapter_text (link_text l))")
    case None
    then show ?thesis using Cons by (simp add: matches_def)
  next
    case (Some g)
    then obtain h where h: "href l = Some h" using Cons.prems by (cases "href l") auto
    from Cons.IH [of "acc @ [\<lparr>number = py_float g, url = h\<rparr>]"] Cons.prems Some h
    show ?thesis by (simp add: matches_def entry_of_def)
  qed
qed

lemma collect_chapters_total:
  "\<forall>l\<in>set ls. matches l \<longrightarrow> href l \<noteq> None \<Longrightarrow> \<exists>chs. collect_chapters ls acc = Inr chs"
proof (induction ls arbitrary: acc)
  case Nil
  then show ?case by simp
next
  case (Cons l ls)
  then show ?case
    by (cases "chapter_search (chapter_text (link_text l))"; cases "href l")
       (auto simp: matches_def)
qed

lemma get_chapter_list_set:
  "set (get_chapter_list ls) \<subseteq> entry_of ` {l \<in> set ls. matches l \<and> href l \<noteq> None}"
proof (cases "collect_chapters ls []")
  case (Inl e)
  then show ?thesis by (simp add: get_chapter_list_def)
next
  case (Inr chs)
  from collect_chapters_Inr [OF this]
  have c: "chs = map entry_of (filter matches ls)" "\<forall>l\<in>set ls. matches l \<longrightarrow> href l \<noteq> None"
    by simp_all
  have "\<forall>y\<in>set chs. ordinary (number y)"
    using c(1) by (auto simp: entry_of_def ordinary_py_float)
  from sorted_by_number_sorted [OF this] have "set (sorted_by_number chs) = set chs" by simp
  then show ?thesis using Inr c by (auto simp: get_chapter_list_def)
qed

lemma get_chapter_list_ordinary:
  "list_all (\<lambda>ch. ordinary (number ch)) (get_chapter_list ls)"
  using get_chapter_list_set [of ls]
  by (auto simp: list_all_iff entry_of_def ordinary_py_float)

lemma get_chapter_list_sorted:
  "sorted_wrt (\<lambda>a b. py_le (number a) (number b)) (get_chapter_list ls)"
proof (cases "collect_chapters ls []")
  case (Inl e)
  then show ?thesis by (simp add: get_chapter_list_def)
next
  case (Inr chs)
  from collect_chapters_Inr [OF this]
  have "\<forall>y\<in>set chs. ordinary (number y)"
    by (auto simp: entry_of_def ordinary_py_float)
  from sorted_by_number_sorted [OF this] show ?thesis
    using Inr by (simp add: get_chapter_list_def)
qed

lemma get_chapter_list_mset:
  assumes "\<forall>l\<in>set ls. matches l \<longrightarrow> href l \<noteq> None"
  shows "mset (get_chapter_list ls) = mset (map entry_of (filter matches ls))"
proof -
  from collect_chapters_total [OF assms, of "[]"] obtain chs where
    c: "collect_chapters ls [] = Inr chs" by blast
  from collect_chapters_Inr [OF c] have "chs = map entry_of (filter matches ls)" by simp
  then show ?thesis using c by (simp add: get_chapter_list_def mset_sorted_by_number)
qed

lemma digits_takeWhile: "takeWhile is_digit t \<noteq> [] \<Longrightarrow> digits (takeWhile is_digit t)"
  by (auto simp: digits_def list_all_iff dest: set_takeWhileD)

lemma chapter_group_form:
  assumes "chapter_group t = Some g"
  shows "(\<exists>n. digits n \<and> g = n) \<or> (\<exists>n m. digits n \<and> digits m \<and> g = n @ ''.'' @ m)"
proof -
  let ?n = "takeWhile is_digit (drop 8 t)"
  let ?after = "dropWhile is_digit (drop 8 t)"
  let ?m = "takeWhile is_digit (tl ?after)"
  have n: "?n \<noteq> []" using assms by (auto simp: chapter_group_def Let_def split: if_splits)
  then have dn: "digits ?n" by (rule digits_takeWhile)
  show ?thesis
  proof (cases "?after \<noteq> [] \<and> hd ?after = CHR ''.'' \<and> ?m \<noteq> []")
    case True
    then have "digits ?m" by (intro digits_takeWhile) simp
    moreover have "g = ?n @ ''.'' @ ?m"
      using assms n True by (auto simp: chapter_group_def Let_def split: if_splits)
    ultimately show ?thesis using dn by blast
  next
    case False
    then have "g = ?n"
      using assms n by (auto simp: chapter_group_def Let_def split: if_splits)
    then show ?thesis using dn by blast
  qed
qed

lemma chapter_search_form:
  "chapter_search t = Some g \<Longrightarrow>
     (\<exists>n. digits n \<and> g = n) \<or> (\<exists>n m. digits n \<and> digits m \<and> g = n @ ''.'' @ m)"
proof (induction t)
  case Nil
  then show ?case by simp
next
  case (Cons c cs)
  show ?case
  proof (cases "chapter_group (c # cs)")
    case None
    then show ?thesis using Cons by simp
  next
    case (Some h)
    then have "h = g" using Cons.prems by simp
    then show ?thesis using chapter_group_form [OF Some] by simp
  qed
qed

lemma chapter_search_nearest:
  assumes "chapter_search t = Some g"
  shows "(\<exists>n. digits n \<and> g = n \<and> nearest_binary64 (of_nat (digits_value n)) (py_float g))
       \<or> (\<exists>n m. digits n \<and> digits m \<and> g = n @ ''.'' @ m
              \<and> nearest_binary64 (decimal_value n m) (py_float g))"
  using chapter_search_form [OF assms] py_float_whole_nearest py_float_fraction_nearest
  by blast

lemma fraction_follows_iff:
  "fraction_follows rest = (\<exists>r. rest = CHR ''.'' # r \<and> r \<noteq> [] \<and> is_digit (hd r))"
  by (cases rest; cases "tl rest") (auto simp: fraction_follows_def)

text \<open>
  C5, as the code has it. The list that \<^verbatim>\<open>get_chapter_list\<close> returns is in ascending
  order of the numbers; every chapter in it comes from a link whose text has a match, with
  the number that \<^verbatim>\<open>float\<close> reads from the matched text and the link's \<^verbatim>\<open>href\<close>, so links
  without a match are left out; and when every link with a match has an \<^verbatim>\<open>href\<close>, the
  list holds exactly the chapters of the links with a match. For a text \<^verbatim>\<open>Chapter N\<close> the
  matched text is \<open>N\<close> and for \<^verbatim>\<open>Chapter N.M\<close> it is \<open>N.M\<close>. The number is not always the
  decimal itself: it is the binary64 float nearest to the decimal \<open>N\<close> or \<open>N.M\<close>, ties to
  even, and \<^verbatim>\<open>inf\<close> from \<open>2 ^ 1024 - 2 ^ 970\<close> on. It is the decimal exactly if and only if
  the decimal is a binary64 number, as every whole number below \<open>2 ^ 53\<close> is. Wherever in
  a text the match is found, the matched text is such an \<open>N\<close> or \<open>N.M\<close>, with that number.
\<close>

theorem get_chapter_list_nearest_binary64_sorted:
  "sorted_wrt (\<lambda>a b. py_le (number a) (number b)) (get_chapter_list ls)
   \<and> set (get_chapter_list ls) \<subseteq> entry_of ` {l \<in> set ls. matches l \<and> href l \<noteq> None}
   \<and> ((\<forall>l\<in>set ls. matches l \<longrightarrow> href l \<noteq> None) \<longrightarrow>
        mset (get_chapter_list ls) = mset (map entry_of (filter matches ls)))
   \<and> (digits n \<and> number_ends rest \<and> \<not> fraction_follows rest \<longrightarrow>
        chapter_search (''Chapter '' @ n @ rest) = Some n
        \<and> nearest_binary64 (of_nat (digits_value n)) (py_float n)
        \<and> (binary64 (of_nat (digits_value n)) \<longleftrightarrow> py_float n = Fin (of_nat (digits_value n)))
        \<and> (digits_value n < 2 ^ 53 \<longrightarrow> py_float n = Fin (of_nat (digits_value n))))
   \<and> (digits n \<and> digits m \<and> number_ends rest \<longrightarrow>
        chapter_search (''Chapter '' @ n @ ''.'' @ m @ rest) = Some (n @ ''.'' @ m)
        \<and> nearest_binary64 (decimal_value n m) (py_float (n @ ''.'' @ m))
        \<and> (binary64 (decimal_value n m) \<longleftrightarrow> py_float (n @ ''.'' @ m) = Fin (decimal_value n m)))
   \<and> (chapter_search t = Some g \<longrightarrow>
        (\<exists>n. digits n \<and> g = n \<and> nearest_binary64 (of_nat (digits_value n)) (py_float g))
        \<or> (\<exists>n m. digits n \<and> digits m \<and> g = n @ ''.'' @ m
               \<and> nearest_binary64 (decimal_value n m) (py_float g)))"
proof (intro conjI impI)
  show "sorted_wrt (\<lambda>a b. py_le (number a) (number b)) (get_chapter_list ls)"
    by (rule get_chapter_list_sorted)
  show "set (get_chapter_list ls) \<subseteq> entry_of ` {l \<in> set ls. matches l \<and> href l \<noteq> None}"
    by (rule get_chapter_list_set)
  show "mset (get_chapter_list ls) = mset (map entry_of (filter matches ls))"
    if "\<forall>l\<in>set ls. matches l \<longrightarrow> href l \<noteq> None"
    using that by (rule get_chapter_list_mset)
  show "chapter_search (''Chapter '' @ n @ rest) = Some n"
    if "digits n \<and> number_ends rest \<and> \<not> fraction_follows rest"
    using that by (intro chapter_search_start chapter_group_whole)
      (simp_all add: fraction_follows_iff)
  show w: "nearest_binary64 (of_nat (digits_value n)) (py_float n)"
    if "digits n \<and> number_ends rest \<and> \<not> fraction_follows rest"
    using that by (intro py_float_whole_nearest) simp
  show "binary64 (of_nat (digits_value n)) \<longleftrightarrow> py_float n = Fin (of_nat (digits_value n))"
    if "digits n \<and> number_ends rest \<and> \<not> fraction_follows rest"
    by (rule nearest_binary64_exact [OF w [OF that]])
  show "py_float n = Fin (of_nat (digits_value n))"
    if "digits n \<and> number_ends rest \<and> \<not> fraction_follows rest" "digits_value n < 2 ^ 53"
    using that py_float_whole [of n] b64_round_whole [of "digits_value n"] by simp
  show "chapter_search (''Chapter '' @ n @ ''.'' @ m @ rest) = Some (n @ ''.'' @ m)"
    if "digits n \<and> digits m \<and> number_ends rest"
    using that by (intro chapter_search_start chapter_group_fraction) simp_all
  show f: "nearest_binary64 (decimal_value n m) (py_float (n @ ''.'' @ m))"
    if "digits n \<and> digits m \<and> number_ends rest"
    using that by (intro py_float_fraction_nearest) simp_all
  show "binary64 (decimal_value n m) \<longleftrightarrow> py_float (n @ ''.'' @ m) = Fin (decimal_value n m)"
    if "digits n \<and> digits m \<and> number_ends rest"
    by (rule nearest_binary64_exact [OF f [OF that]])
  show "(\<exists>n. digits n \<and> g = n \<and> nearest_binary64 (of_nat (digits_value n)) (py_float g))
        \<or> (\<exists>n m. digits n \<and> digits m \<and> g = n @ ''.'' @ m
               \<and> nearest_binary64 (decimal_value n m) (py_float g))"
    if "chapter_search t = Some g"
    using that by (rule chapter_search_nearest)
qed

lemmas float_eval = py_float_def is_digit_def digits_value_def digit_value_def b64_round_def
      floor_log2_def round_half_even_def Let_def

lemma chapter_text_examples:
  "chapter_text ''Chapter 2.5'' = ''Chapter 2.5''"
  "chapter_text [CHR 0x0A, CHR '' '', CHR ''C'', CHR ''h'', CHR ''a'', CHR ''p'', CHR ''t'',
                 CHR ''e'', CHR ''r'', CHR 0x0A, CHR ''1'', CHR ''0'', CHR '' '', CHR 0x0A]
     = ''Chapter 10''"
  "chapter_text ''Prologue'' = ''Prologue''"
  "chapter_text ''Chapter 2 End'' = ''Chapter 2 End''"
  by (simp_all add: chapter_text_def strip_def is_space_def)

lemma chapter_search_examples:
  "chapter_search ''Chapter 2.5'' = Some ''2.5''"
  "chapter_search ''Chapter 10'' = Some ''10''"
  "chapter_search ''Prologue'' = None"
  "chapter_search ''Chapter 2 End'' = Some ''2''"
  by (simp_all add: chapter_group_def is_digit_def)

lemma py_float_more_examples:
  "py_float ''10'' = Fin 10"
  by (simp_all add: float_eval)

text \<open>
  The theorem at four links: one with a fraction, one with line breaks and spaces around
  the text, one without a match and without \<^verbatim>\<open>href\<close>, one with more text after the
  number; and at the texts \<^verbatim>\<open>Chapter 2.5\<close>, whose decimal is a binary64 number, and
  \<^verbatim>\<open>Chapter 1.1\<close>, whose decimal is not.
\<close>

theorem get_chapter_list_nearest_binary64_sorted_witness:
  "get_chapter_list
     [\<lparr>link_text = ''Chapter 2.5'', href = Some ''https://komikcast.cz/chapter/alpha-chapter-2-5/''\<rparr>,
      \<lparr>link_text = [CHR 0x0A, CHR '' '', CHR ''C'', CHR ''h'', CHR ''a'', CHR ''p'', CHR ''t'',
                    CHR ''e'', CHR ''r'', CHR 0x0A, CHR ''1'', CHR ''0'', CHR '' '', CHR 0x0A],
       href = Some ''https://komikcast.cz/chapter/alpha-chapter-10/''\<rparr>,
      \<lparr>link_text = ''Prologue'', href = None\<rparr>,
      \<lparr>link_text = ''Chapter 2 End'', href = Some ''https://komikcast.cz/chapter/alpha-chapter-2/''\<rparr>]
   = [\<lparr>number = Fin 2, url = ''https://komikcast.cz/chapter/alpha-chapter-2/''\<rparr>,
      \<lparr>number = Fin (5 / 2), url = ''https://komikcast.cz/chapter/alpha-chapter-2-5/''\<rparr>,
      \<lparr>number = Fin 10, url = ''https://komikcast.cz/chapter/alpha-chapter-10/''\<rparr>]
   \<and> mset (get_chapter_list
     [\<lparr>link_text = ''Chapter 2.5'', href = Some ''https://komikcast.cz/chapter/alpha-chapter-2-5/''\<rparr>,
      \<lparr>link_text = [CHR 0x0A, CHR '' '', CHR ''C'', CHR ''h'', CHR ''a'', CHR ''p'', CHR ''t'',
                    CHR ''e'', CHR ''r'', CHR 0x0A, CHR ''1'', CHR ''0'', CHR '' '', CHR 0x0A],
       href = Some ''https://komikcast.cz/chapter/alpha-chapter-10/''\<rparr>,
      \<lparr>link_text = ''Prologue'', href = None\<rparr>,
      \<lparr>link_text = ''Chapter 2 End'', href = Some ''https://komikcast.cz/chapter/alpha-chapter-2/''\<rparr>])
     = mset [\<lparr>number = Fin (5 / 2), url = ''https://komikcast.cz/chapter/alpha-chapter-2-5/''\<rparr>,
             \<lparr>number = Fin 10, url = ''https://komikcast.cz/chapter/alpha-chapter-10/''\<rparr>,
             \<lparr>number = Fin 2, url = ''https://komikcast.cz/chapter/alpha-chapter-2/''\<rparr>]
   \<and> chapter_search (''Chapter '' @ ''2'' @ '' End'') = Some ''2''
   \<and> py_float ''2'' = Fin 2
   \<and> chapter_search (''Chapter '' @ ''2'' @ ''.'' @ ''5'' @ []) = Some ''2.5''
   \<and> py_float ''2.5'' = Fin (5 / 2)
   \<and> binary64 (5 / 2)
   \<and> chapter_search (''Chapter '' @ ''1'' @ ''.'' @ ''1'' @ []) = Some ''1.1''
   \<and> py_float ''1.1'' = Fin (2476979795053773 / 2251799813685248)
   \<and> nearest_binary64 (11 / 10) (Fin (2476979795053773 / 2251799813685248))
   \<and> \<not> binary64 (11 / 10)
   \<and> chapter_search ''Vol 3 Chapter 10 End'' = Some ''10''
   \<and> nearest_binary64 10 (py_float ''10'')"
proof -
  let ?L = "[\<lparr>link_text = ''Chapter 2.5'', href = Some ''https://komikcast.cz/chapter/alpha-chapter-2-5/''\<rparr>,
      \<lparr>link_text = [CHR 0x0A, CHR '' '', CHR ''C'', CHR ''h'', CHR ''a'', CHR ''p'', CHR ''t'',
                    CHR ''e'', CHR ''r'', CHR 0x0A, CHR ''1'', CHR ''0'', CHR '' '', CHR 0x0A],
       href = Some ''https://komikcast.cz/chapter/alpha-chapter-10/''\<rparr>,
      \<lparr>link_text = ''Prologue'', href = None\<rparr>,
      \<lparr>link_text = ''Chapter 2 End'', href = Some ''https://komikcast.cz/chapter/alpha-chapter-2/''\<rparr>]"
  have g: "get_chapter_list ?L
   = [\<lparr>number = Fin 2, url = ''https://komikcast.cz/chapter/alpha-chapter-2/''\<rparr>,
      \<lparr>number = Fin (5 / 2), url = ''https://komikcast.cz/chapter/alpha-chapter-2-5/''\<rparr>,
      \<lparr>number = Fin 10, url = ''https://komikcast.cz/chapter/alpha-chapter-10/''\<rparr>]"
    by (simp add: get_chapter_list_def chapter_text_examples chapter_search_examples
        py_float_examples py_float_more_examples sorted_by_number_def
        del: chapter_search.simps)
  have h: "\<forall>l\<in>set ?L. matches l \<longrightarrow> href l \<noteq> None"
    by (simp add: matches_def chapter_text_examples chapter_search_examples
        del: chapter_search.simps)
  have f: "map entry_of (filter matches ?L)
     = [\<lparr>number = Fin (5 / 2), url = ''https://komikcast.cz/chapter/alpha-chapter-2-5/''\<rparr>,
        \<lparr>number = Fin 10, url = ''https://komikcast.cz/chapter/alpha-chapter-10/''\<rparr>,
        \<lparr>number = Fin 2, url = ''https://komikcast.cz/chapter/alpha-chapter-2/''\<rparr>]"
    by (simp add: matches_def entry_of_def chapter_text_examples chapter_search_examples
        py_float_examples py_float_more_examples del: chapter_search.simps)
  have "mset (get_chapter_list ?L) = mset (map entry_of (filter matches ?L))"
    by (rule mp [OF get_chapter_list_nearest_binary64_sorted
          [of ?L, THEN conjunct2, THEN conjunct2, THEN conjunct1] h])
  then have m: "mset (get_chapter_list ?L)
     = mset [\<lparr>number = Fin (5 / 2), url = ''https://komikcast.cz/chapter/alpha-chapter-2-5/''\<rparr>,
             \<lparr>number = Fin 10, url = ''https://komikcast.cz/chapter/alpha-chapter-10/''\<rparr>,
             \<lparr>number = Fin 2, url = ''https://komikcast.cz/chapter/alpha-chapter-2/''\<rparr>]"
    by (simp only: f)
  have d: "digits ''2'' \<and> number_ends '' End'' \<and> \<not> fraction_follows '' End''"
    "digits ''2'' \<and> digits ''5'' \<and> number_ends []"
    "digits ''1'' \<and> digits ''1'' \<and> number_ends []"
    by (simp_all add: digits_def number_ends_def fraction_follows_def is_digit_def)
  have v: "digits_value ''2'' = 2" "decimal_value ''2'' ''5'' = 5 / 2"
    "decimal_value ''1'' ''1'' = 11 / 10"
    by (simp_all add: decimal_value_def digits_value_def digit_value_def)
  have x: "py_float ''1.1'' = Fin (2476979795053773 / 2251799813685248)"
    by (simp add: float_eval)
  have "chapter_search (''Chapter '' @ ''2'' @ '' End'') = Some ''2''
        \<and> (digits_value ''2'' < 2 ^ 53 \<longrightarrow> py_float ''2'' = Fin (of_nat (digits_value ''2'')))"
    using mp [OF get_chapter_list_nearest_binary64_sorted
          [of "[]" "''2''" "'' End''" "[]", THEN conjunct2, THEN conjunct2, THEN conjunct2,
           THEN conjunct1] d(1)]
    by blast
  then have t1: "chapter_search (''Chapter '' @ ''2'' @ '' End'') = Some ''2''"
    "py_float ''2'' = Fin 2"
    by (simp_all add: v(1))
  have "chapter_search (''Chapter '' @ ''2'' @ ''.'' @ ''5'' @ []) = Some (''2'' @ ''.'' @ ''5'')
        \<and> nearest_binary64 (decimal_value ''2'' ''5'') (py_float (''2'' @ ''.'' @ ''5''))
        \<and> (binary64 (decimal_value ''2'' ''5'')
             \<longleftrightarrow> py_float (''2'' @ ''.'' @ ''5'') = Fin (decimal_value ''2'' ''5''))"
    by (rule mp [OF get_chapter_list_nearest_binary64_sorted
          [of "[]" "''2''" "[]" "''5''", THEN conjunct2, THEN conjunct2, THEN conjunct2,
           THEN conjunct2, THEN conjunct1] d(2)])
  then have t2: "chapter_search (''Chapter '' @ ''2'' @ ''.'' @ ''5'' @ []) = Some ''2.5''"
    "binary64 (5 / 2)"
    by (simp_all add: v(2) py_float_examples)
  have "chapter_search (''Chapter '' @ ''1'' @ ''.'' @ ''1'' @ []) = Some (''1'' @ ''.'' @ ''1'')
        \<and> nearest_binary64 (decimal_value ''1'' ''1'') (py_float (''1'' @ ''.'' @ ''1''))
        \<and> (binary64 (decimal_value ''1'' ''1'')
             \<longleftrightarrow> py_float (''1'' @ ''.'' @ ''1'') = Fin (decimal_value ''1'' ''1''))"
    by (rule mp [OF get_chapter_list_nearest_binary64_sorted
          [of "[]" "''1''" "[]" "''1''", THEN conjunct2, THEN conjunct2, THEN conjunct2,
           THEN conjunct2, THEN conjunct1] d(3)])
  then have t3: "chapter_search (''Chapter '' @ ''1'' @ ''.'' @ ''1'' @ []) = Some ''1.1''"
    "nearest_binary64 (11 / 10) (Fin (2476979795053773 / 2251799813685248))"
    "\<not> binary64 (11 / 10)"
    by (simp_all add: v(3) x)
  have c: "chapter_search ''Vol 3 Chapter 10 End'' = Some ''10''"
    by (simp add: chapter_group_def is_digit_def)
  have "(\<exists>n. digits n \<and> ''10'' = n
             \<and> nearest_binary64 (of_nat (digits_value n)) (py_float ''10''))
        \<or> (\<exists>n m. digits n \<and> digits m \<and> ''10'' = n @ ''.'' @ m
               \<and> nearest_binary64 (decimal_value n m) (py_float ''10''))"
    by (rule mp [OF get_chapter_list_nearest_binary64_sorted
          [of "[]" "[]" "[]" "[]" "''Vol 3 Chapter 10 End''" "''10''", THEN conjunct2,
           THEN conjunct2, THEN conjunct2, THEN conjunct2, THEN conjunct2] c])
  moreover have "''10'' \<noteq> n @ ''.'' @ m" if "digits n" for n m
  proof
    assume e: "''10'' = n @ ''.'' @ m"
    then have "CHR ''.'' \<in> set ''10''" by (simp only: set_append) simp
    then show False by simp
  qed
  moreover have "digits_value ''10'' = 10" by (simp add: digits_value_def digit_value_def)
  ultimately have t4: "nearest_binary64 10 (py_float ''10'')" by auto
  from g m t1 t2(1) py_float_examples(2) t2(2) t3(1) x t3(2,3) c t4 show ?thesis
    by (intro conjI)
qed

text \<open>
  C5 as stated fails: the number is not always the decimal exactly. For the link text
  \<^verbatim>\<open>Chapter 1.1\<close> the matched text is \<open>1.1\<close>, the decimal is \<open>11 / 10\<close>, and the number in
  the list is \<open>2476979795053773 / 2 ^ 51\<close>, the binary64 float nearest to it.
\<close>

theorem get_chapter_list_exact_counterexample:
  "get_chapter_list
     [\<lparr>link_text = ''Chapter 1.1'', href = Some ''https://komikcast.cz/chapter/alpha-chapter-1-1/''\<rparr>]
   = [\<lparr>number = Fin (2476979795053773 / 2251799813685248),
       url = ''https://komikcast.cz/chapter/alpha-chapter-1-1/''\<rparr>]
   \<and> chapter_search (chapter_text ''Chapter 1.1'') = Some ''1.1''
   \<and> decimal_value ''1'' ''1'' = 11 / 10
   \<and> py_float ''1.1'' \<noteq> Fin (11 / 10)"
proof -
  have t: "chapter_text ''Chapter 1.1'' = ''Chapter 1.1''"
    by (simp add: chapter_text_def strip_def is_space_def)
  have c: "chapter_search ''Chapter 1.1'' = Some ''1.1''"
    by (simp add: chapter_group_def is_digit_def)
  have f: "py_float ''1.1'' = Fin (2476979795053773 / 2251799813685248)"
    by (simp add: float_eval)
  have d: "decimal_value ''1'' ''1'' = 11 / 10"
    by (simp add: decimal_value_def digits_value_def digit_value_def)
  have "get_chapter_list
     [\<lparr>link_text = ''Chapter 1.1'', href = Some ''https://komikcast.cz/chapter/alpha-chapter-1-1/''\<rparr>]
   = [\<lparr>number = Fin (2476979795053773 / 2251799813685248),
       url = ''https://komikcast.cz/chapter/alpha-chapter-1-1/''\<rparr>]"
    by (simp add: get_chapter_list_def t c f sorted_by_number_def del: chapter_search.simps)
  moreover have "py_float ''1.1'' \<noteq> Fin (11 / 10)" by (simp add: f)
  ultimately show ?thesis using c d by (simp only: t) simp
qed

section \<open>The starting chapter\<close>

lemma py_ge_zero: "ordinary x \<Longrightarrow> py_ge x (Fin 0)"
  by (cases x) (simp_all add: ordinary_def)

lemma folder_exists_store_empty:
  "store_empty E \<Longrightarrow> fst (folder_exists E p w) = False"
  unfolding store_empty_def folder_exists_def
  by (auto split: sum.splits option.splits dest: spec [of _ "clock w"])

lemma not_yet_stored_store_empty:
  "store_empty E \<Longrightarrow> fst (not_yet_stored dtoa E t chs w) = chs"
proof (induction chs arbitrary: w)
  case Nil
  then show ?case by simp
next
  case (Cons c chs)
  obtain f w1 where f: "folder_exists E (main_chapter_folder dtoa t c) w = (f, w1)"
    by (cases "folder_exists E (main_chapter_folder dtoa t c) w")
  then have "f = False"
    using folder_exists_store_empty [OF Cons.prems, of "main_chapter_folder dtoa t c" w] by simp
  then show ?case
    using f Cons.IH [OF Cons.prems, of w1]
    by (cases "not_yet_stored dtoa E t chs w1") simp
qed

text \<open>
  C9. Without a start value the filter of \<^verbatim>\<open>main\<close> keeps every chapter. With a start
  value it keeps exactly the chapters whose number is at least the start value: for every
  list when the start value is not zero, and for the start value zero when no number is
  negative or not-a-number, which holds of every list that \<^verbatim>\<open>get_chapter_list\<close> returns.
  For the chapters 1.0, 2.0, 2.5, 3.0 and the start 2.0 it keeps 2.0, 2.5, 3.0. The filter
  that follows in \<^verbatim>\<open>main\<close>, on chapters already stored, keeps all of these when the store
  reports nothing.
\<close>

theorem chapters_from_start_inclusive:
  "chapters_from_start chs None = chs
   \<and> (py_bool x \<or> list_all (\<lambda>ch. ordinary (number ch)) chs \<longrightarrow>
        chapters_from_start chs (Some x) = filter (\<lambda>ch. py_ge (number ch) x) chs)
   \<and> list_all (\<lambda>ch. ordinary (number ch)) (get_chapter_list ls)
   \<and> chapters_from_start
        [\<lparr>number = Fin 1, url = u1\<rparr>, \<lparr>number = Fin 2, url = u2\<rparr>,
         \<lparr>number = Fin (5 / 2), url = u3\<rparr>, \<lparr>number = Fin 3, url = u4\<rparr>] (Some (Fin 2))
      = [\<lparr>number = Fin 2, url = u2\<rparr>, \<lparr>number = Fin (5 / 2), url = u3\<rparr>,
         \<lparr>number = Fin 3, url = u4\<rparr>]
   \<and> (store_empty E \<longrightarrow>
        fst (not_yet_stored dtoa E t (chapters_from_start chs start) w)
          = chapters_from_start chs start)"
proof (intro conjI impI)
  show "chapters_from_start chs None = chs"
    by (simp add: chapters_from_start_def)
  show "chapters_from_start chs (Some x) = filter (\<lambda>ch. py_ge (number ch) x) chs"
    if a: "py_bool x \<or> list_all (\<lambda>ch. ordinary (number ch)) chs"
  proof (cases "py_bool x")
    case True
    then show ?thesis by (simp add: chapters_from_start_def)
  next
    case False
    then have x: "x = Fin 0" by (simp add: py_bool_def)
    have "\<forall>ch\<in>set chs. py_ge (number ch) (Fin 0)"
      using a False by (auto simp: list_all_iff py_ge_zero)
    then have "filter (\<lambda>ch. py_ge (number ch) (Fin 0)) chs = chs"
      by (simp add: filter_id_conv)
    then show ?thesis using x by (simp add: chapters_from_start_def py_bool_def)
  qed
  show "list_all (\<lambda>ch. ordinary (number ch)) (get_chapter_list ls)"
    by (rule get_chapter_list_ordinary)
  show "chapters_from_start
        [\<lparr>number = Fin 1, url = u1\<rparr>, \<lparr>number = Fin 2, url = u2\<rparr>,
         \<lparr>number = Fin (5 / 2), url = u3\<rparr>, \<lparr>number = Fin 3, url = u4\<rparr>] (Some (Fin 2))
      = [\<lparr>number = Fin 2, url = u2\<rparr>, \<lparr>number = Fin (5 / 2), url = u3\<rparr>,
         \<lparr>number = Fin 3, url = u4\<rparr>]"
    by (simp add: chapters_from_start_def py_bool_def)
  show "fst (not_yet_stored dtoa E t (chapters_from_start chs start) w)
          = chapters_from_start chs start" if "store_empty E"
    using that by (rule not_yet_stored_store_empty)
qed

text \<open>
  The theorem at the start value zero, at the start value 2.5, and with the second filter
  at an empty store.
\<close>

theorem chapters_from_start_inclusive_witness:
  "chapters_from_start
     [\<lparr>number = Fin 0, url = ''c0''\<rparr>, \<lparr>number = Fin 1, url = ''c1''\<rparr>,
      \<lparr>number = PInf, url = ''c2''\<rparr>] (Some (Fin 0))
   = [\<lparr>number = Fin 0, url = ''c0''\<rparr>, \<lparr>number = Fin 1, url = ''c1''\<rparr>,
      \<lparr>number = PInf, url = ''c2''\<rparr>]
   \<and> chapters_from_start
       [\<lparr>number = Fin 1, url = ''c1''\<rparr>, \<lparr>number = Fin 2, url = ''c2''\<rparr>,
        \<lparr>number = Fin (5 / 2), url = ''c2-5''\<rparr>, \<lparr>number = Fin 3, url = ''c3''\<rparr>]
       (Some (Fin (5 / 2)))
     = [\<lparr>number = Fin (5 / 2), url = ''c2-5''\<rparr>, \<lparr>number = Fin 3, url = ''c3''\<rparr>]
   \<and> fst (not_yet_stored (\<lambda>q. ([], 0))
            \<lparr>http = (\<lambda>n. Inl OtherError), resources = (\<lambda>n. Inr (Some [])),
             uploader = (\<lambda>n. UploadCrash), select_images = (\<lambda>t. Inr [])\<rparr>
            ''alpha''
            (chapters_from_start
               [\<lparr>number = Fin 1, url = ''c1''\<rparr>, \<lparr>number = Fin 2, url = ''c2''\<rparr>] (Some (Fin 2)))
            \<lparr>clock = 0, log = []\<rparr>)
     = [\<lparr>number = Fin 2, url = ''c2''\<rparr>]"
proof -
  have o: "list_all (\<lambda>ch. ordinary (number ch))
     [\<lparr>number = Fin 0, url = ''c0''\<rparr>, \<lparr>number = Fin 1, url = ''c1''\<rparr>,
      \<lparr>number = PInf, url = ''c2''\<rparr>]"
    by (simp add: ordinary_def)
  have b: "py_bool (Fin (5 / 2))" by (simp add: py_bool_def)
  have e: "store_empty \<lparr>http = (\<lambda>n. Inl OtherError), resources = (\<lambda>n. Inr (Some [])),
             uploader = (\<lambda>n. UploadCrash), select_images = (\<lambda>t. Inr [])\<rparr>"
    by (simp add: store_empty_def)
  from chapters_from_start_inclusive
      [of "[\<lparr>number = Fin 0, url = ''c0''\<rparr>, \<lparr>number = Fin 1, url = ''c1''\<rparr>,
            \<lparr>number = PInf, url = ''c2''\<rparr>]" "Fin 0"] o
  have 1: "chapters_from_start
     [\<lparr>number = Fin 0, url = ''c0''\<rparr>, \<lparr>number = Fin 1, url = ''c1''\<rparr>,
      \<lparr>number = PInf, url = ''c2''\<rparr>] (Some (Fin 0))
   = [\<lparr>number = Fin 0, url = ''c0''\<rparr>, \<lparr>number = Fin 1, url = ''c1''\<rparr>,
      \<lparr>number = PInf, url = ''c2''\<rparr>]"
    by simp
  from chapters_from_start_inclusive
      [of "[\<lparr>number = Fin 1, url = ''c1''\<rparr>, \<lparr>number = Fin 2, url = ''c2''\<rparr>,
        \<lparr>number = Fin (5 / 2), url = ''c2-5''\<rparr>, \<lparr>number = Fin 3, url = ''c3''\<rparr>]" "Fin (5 / 2)"] b
  have 2: "chapters_from_start
       [\<lparr>number = Fin 1, url = ''c1''\<rparr>, \<lparr>number = Fin 2, url = ''c2''\<rparr>,
        \<lparr>number = Fin (5 / 2), url = ''c2-5''\<rparr>, \<lparr>number = Fin 3, url = ''c3''\<rparr>]
       (Some (Fin (5 / 2)))
     = [\<lparr>number = Fin (5 / 2), url = ''c2-5''\<rparr>, \<lparr>number = Fin 3, url = ''c3''\<rparr>]"
    by simp
  from chapters_from_start_inclusive
      [of "[\<lparr>number = Fin 1, url = ''c1''\<rparr>, \<lparr>number = Fin 2, url = ''c2''\<rparr>]" "Fin 2" "[]"
          "''c1''" "''c2''" "''c3''" "''c4''"
          "\<lparr>http = (\<lambda>n. Inl OtherError), resources = (\<lambda>n. Inr (Some [])),
             uploader = (\<lambda>n. UploadCrash), select_images = (\<lambda>t. Inr [])\<rparr>"
          "\<lambda>q. ([], 0)" "''alpha''" "Some (Fin 2)" "\<lparr>clock = 0, log = []\<rparr>"] e
  have 3: "fst (not_yet_stored (\<lambda>q. ([], 0))
            \<lparr>http = (\<lambda>n. Inl OtherError), resources = (\<lambda>n. Inr (Some [])),
             uploader = (\<lambda>n. UploadCrash), select_images = (\<lambda>t. Inr [])\<rparr>
            ''alpha''
            (chapters_from_start
               [\<lparr>number = Fin 1, url = ''c1''\<rparr>, \<lparr>number = Fin 2, url = ''c2''\<rparr>] (Some (Fin 2)))
            \<lparr>clock = 0, log = []\<rparr>)
     = [\<lparr>number = Fin 2, url = ''c2''\<rparr>]"
    by (auto simp: py_bool_def simp del: not_yet_stored.simps)
  from 1 2 3 show ?thesis by simp
qed

section \<open>The two folder names\<close>

lemma chapter_num_match_digits: "chapter_num_match u = Some n \<Longrightarrow> digits n"
proof (induction u)
  case Nil
  then show ?case by simp
next
  case (Cons c cs)
  show ?case
  proof (cases "take 8 (c # cs) = ''chapter-'' \<and> takeWhile is_digit (drop 8 (c # cs)) \<noteq> []")
    case True
    then have "n = takeWhile is_digit (drop 8 (c # cs))" using Cons.prems by simp
    then show ?thesis
      using True by (auto simp: digits_def list_all_iff dest: set_takeWhileD)
  next
    case False
    then have "chapter_num_match cs = Some n" using Cons.prems by auto
    then show ?thesis by (rule Cons.IH)
  qed
qed

lemma not_digit_e [simp]: "\<not> is_digit CHR ''e''" "\<not> is_digit CHR ''n''" "\<not> is_digit CHR ''i''"
  "\<not> is_digit CHR ''-''"
  by (simp_all add: is_digit_def)

lemma format_float_short_mark:
  "CHR ''.'' \<in> set (format_float_short dd) \<or> CHR ''e'' \<in> set (format_float_short dd)"
  by (cases dd) (simp add: format_float_short_def)

lemma float_str_not_digits: "\<not> list_all is_digit (float_str dtoa x)"
proof (cases x)
  case (Fin q)
  from format_float_short_mark [of "shortest_digits dtoa \<bar>q\<bar>"]
  have "\<exists>c\<in>set (format_float_short (shortest_digits dtoa \<bar>q\<bar>)). \<not> is_digit c"
    by (metis not_digit_dot not_digit_e(1))
  then show ?thesis using Fin by (auto simp: float_str_def list_all_iff)
qed (simp_all add: float_str_def)

lemma digits_of_nat_length:
  "n < 10 ^ Suc k \<Longrightarrow> length (digits_of_nat n) \<le> Suc k"
proof (induction k arbitrary: n)
  case 0
  then show ?case by (subst digits_of_nat.simps) simp
next
  case (Suc k)
  show ?case
  proof (cases "n < 10")
    case True
    then show ?thesis by (subst digits_of_nat.simps) simp
  next
    case False
    have "n div 10 < 10 ^ Suc k" using Suc.prems by (simp add: less_mult_imp_div_less)
    from Suc.IH [OF this] False show ?thesis
      by (subst digits_of_nat.simps) simp
  qed
qed

lemma digits_of_nat_nonempty: "digits_of_nat n \<noteq> []"
  by (subst digits_of_nat.simps) simp

lemma float_str_whole:
  assumes "n < 2 ^ 53"
  shows "float_str dtoa (Fin (of_nat n)) = digits_of_nat n @ ''.0''"
proof -
  have "n < 10 ^ Suc 15" using assms by simp
  from digits_of_nat_length [OF this] have l: "length (digits_of_nat n) \<le> 16" by simp
  have p: "0 < length (digits_of_nat n)" using digits_of_nat_nonempty [of n] by simp
  have "(of_nat n :: rat) < of_nat (10 ^ 16)"
    using assms unfolding of_nat_less_iff by simp
  then have lt: "(of_nat n :: rat) < 10 ^ 16" by simp
  have sd: "shortest_digits dtoa (of_nat n) = (digits_of_nat n, int (length (digits_of_nat n)))"
    using lt by (simp add: shortest_digits_def)
  show ?thesis
    using l p by (simp add: float_str_def sd format_float_short_def)
qed


lemma digits_of_nat_2: "digits_of_nat 2 = ''2''"
  by (subst digits_of_nat.simps) simp


end
